theory Spec2Isabelle
  imports Main "HOL-Library.Word" "HOL-Library.Sublist" "HOL-Library.Multiset"
begin

section \<open>JavaScript strings and values\<close>

text \<open>
  A JavaScript string is a sequence of 16-bit code units, and \<open>length\<close>, \<open>slice\<close> and the
  regular expressions of \<open>index.js\<close> (none has the \<open>u\<close> flag) all work on code units.
\<close>

type_synonym jschar = "16 word"
type_synonym jsstring = "jschar list"

definition js :: "string \<Rightarrow> jsstring" where
  "js s = map of_char s"

definition SP :: jschar where "SP = 0x20"
definition TAB :: jschar where "TAB = 0x09"
definition LF :: jschar where "LF = 0x0A"
definition CR :: jschar where "CR = 0x0D"
definition LS :: jschar where "LS = 0x2028"
definition PS :: jschar where "PS = 0x2029"

definition isSpace :: "jschar \<Rightarrow> bool" where
  "isSpace c = (c = SP)"

text \<open>
  The values that occur in the objects of the program: strings (every CSV column, every
  language code), the number \<open>textPreview.length\<close> (a length, so an integer), and
  \<open>undefined\<close> for a property that is read but absent. On these \<open>===\<close> is equality.
  An object is its list of properties in insertion order; property names are the
  identifiers of the source.
\<close>

datatype jsvalue = JUndefined | JStr jsstring | JNum int

type_synonym jsobject = "(string \<times> jsvalue) list"

definition getProp :: "jsobject \<Rightarrow> string \<Rightarrow> jsvalue" where
  "getProp obj k = (case map_of obj k of None \<Rightarrow> JUndefined | Some v \<Rightarrow> v)"

definition keys :: "jsobject \<Rightarrow> string list" where
  "keys obj = map fst obj"

text \<open>Decimal digits of a number, as a template literal prints a small integer.\<close>

fun digits :: "nat \<Rightarrow> jsstring" where
  "digits n = (if n < 10 then [of_nat (48 + n)] else digits (n div 10) @ [of_nat (48 + n mod 10)])"

declare digits.simps [simp del]

text \<open>\<open>`${v}`\<close>: the string a template literal inserts for a value.\<close>

fun toString :: "jsvalue \<Rightarrow> jsstring" where
  "toString JUndefined = js ''undefined''"
| "toString (JStr s) = s"
| "toString (JNum n) = (if n < 0 then js ''-'' @ digits (nat (- n)) else digits (nat n))"

section \<open>Page normalization (index.js, lines 46 to 50)\<close>

text \<open>
  \<open>.replaceAll(/ +/g, " ")\<close>: scanning from the left, every maximal run of spaces is one
  match and is replaced by a single space; any other character is kept.
\<close>

function collapseSpaces :: "jsstring \<Rightarrow> jsstring" where
  "collapseSpaces [] = []"
| "collapseSpaces (c # cs) =
     (if isSpace c then SP # collapseSpaces (dropWhile isSpace cs)
      else c # collapseSpaces cs)"
  by pat_completeness auto
termination
  by (relation "measure length") (auto intro: le_imp_less_Suc length_dropWhile_le)

text \<open>
  \<open>.replaceAll(/(^ +| +$)/g, "")\<close>: without the \<open>m\<close> flag \<open>^\<close> and \<open>$\<close> are the two ends
  of the string, so the matches are the run of spaces at the start and the run of spaces
  at the end; both are deleted.
\<close>

definition stripEnds :: "jsstring \<Rightarrow> jsstring" where
  "stripEnds s = rev (dropWhile isSpace (rev (dropWhile isSpace s)))"

text \<open>
  \<open>.replaceAll(/(\r?\n?\t?)+/g, "")\<close>: each round of the group takes a character that is
  a carriage return, a line feed or a tab, and a further round that takes nothing is
  refused, so a match is a maximal run of these three characters (or is empty, where the
  next character is none of them, and then replaces nothing). All three characters are
  deleted, everything else is kept.
\<close>

definition isCrLfTab :: "jschar \<Rightarrow> bool" where
  "isCrLfTab c = (c = CR \<or> c = LF \<or> c = TAB)"

definition removeCrLfTab :: "jsstring \<Rightarrow> jsstring" where
  "removeCrLfTab s = filter (\<lambda>c. \<not> isCrLfTab c) s"

text \<open>
  \<open>.replaceAll(/https?.*?(?= |$)/g, "")\<close>. The dot matches every code unit but the four
  line terminators. \<open>lazyDot\<close> is \<open>.*?(?= |$)\<close>: it takes as few characters as possible
  until the next one is a space or the string ends, and returns what is left of the
  string; it fails on a line terminator. \<open>matchUrl\<close> is the whole expression tried at the
  head of the string: \<open>http\<close>, then \<open>s?\<close> greedily with the alternative without it.
\<close>

definition isLineTerminator :: "jschar \<Rightarrow> bool" where
  "isLineTerminator c = (c = LF \<or> c = CR \<or> c = LS \<or> c = PS)"

fun lazyDot :: "jsstring \<Rightarrow> jsstring option" where
  "lazyDot [] = Some []"
| "lazyDot (c # cs) =
     (if isSpace c then Some (c # cs)
      else if isLineTerminator c then None
      else lazyDot cs)"

definition HTTP :: jsstring where
  "HTTP = js ''http''"

definition matchUrl :: "jsstring \<Rightarrow> jsstring option" where
  "matchUrl s =
     (if take 4 s = HTTP then
        (case drop 4 s of
           [] \<Rightarrow> lazyDot []
         | c # cs \<Rightarrow>
             if c = of_char CHR ''s'' then
               (case lazyDot cs of Some r \<Rightarrow> Some r | None \<Rightarrow> lazyDot (c # cs))
             else lazyDot (c # cs))
      else None)"

lemma lazyDot_length: "lazyDot s = Some r \<Longrightarrow> length r \<le> length s"
  by (induction s) (auto split: if_splits)

lemma s_plain: "\<not> isSpace 115" "\<not> isLineTerminator 115"
  by (simp_all add: isSpace_def SP_def isLineTerminator_def LF_def CR_def LS_def PS_def)

text \<open>Taking the \<open>s\<close> or leaving it to the dot gives the same match.\<close>

lemma matchUrl_eq: "matchUrl s = (if take 4 s = HTTP then lazyDot (drop 4 s) else None)"
  by (auto simp: matchUrl_def s_plain split: list.splits option.splits)

lemma HTTP_length: "length HTTP = 4"
  by (simp add: HTTP_def js_def)

lemma matchUrl_length:
  assumes "matchUrl s = Some r"
  shows "length r < length s"
proof -
  from assms have h: "take 4 s = HTTP" and d: "lazyDot (drop 4 s) = Some r"
    by (simp_all add: matchUrl_eq split: if_splits)
  from h have "length (take 4 s) = 4"
    by (simp add: HTTP_length)
  then have "4 \<le> length s"
    by simp
  with lazyDot_length [OF d] show ?thesis
    by simp
qed

text \<open>
  The global replacement: at each position from the left, a match is deleted and the scan
  goes on behind it; where there is no match the character is kept.
\<close>

function stripUrls :: "jsstring \<Rightarrow> jsstring" where
  "stripUrls [] = []"
| "stripUrls (c # cs) =
     (case matchUrl (c # cs) of
        Some r \<Rightarrow> stripUrls r
      | None \<Rightarrow> c # stripUrls cs)"
  by pat_completeness auto
termination
  by (relation "measure length") (auto dest: matchUrl_length)

definition normalizePage :: "jsstring \<Rightarrow> jsstring" where
  "normalizePage str = stripUrls (removeCrLfTab (stripEnds (collapseSpaces str)))"

section \<open>Errors and the external services\<close>

text \<open>
  What the program can throw. An error of the storage client carries a \<open>Code\<close>;
  \<open>TypeError\<close> is what the runtime throws on reading a property of \<open>undefined\<close>;
  \<open>Failure\<close> stands for every other error of a collaborator (network, file system,
  malformed JSON), with its message.
\<close>

datatype error = S3Error (Code: jsstring) | TypeError | Failure jsstring

text \<open>\<open>error.Code === "NoSuchKey"\<close>; an error without a \<open>Code\<close> has \<open>undefined\<close> there.\<close>

fun isNoSuchKey :: "error \<Rightarrow> bool" where
  "isNoSuchKey (S3Error code) = (code = js ''NoSuchKey'')"
| "isNoSuchKey TypeError = False"
| "isNoSuchKey (Failure m) = False"

text \<open>
  The object storage, as \<open>client.send(new GetObjectCommand({Bucket, Key}))\<close> followed by
  \<open>response.Body.transformToString()\<close> sees it: a key has a body or the request throws.
  The bucket is fixed by the environment, so the storage is a function of the key.
\<close>

type_synonym storage = "jsstring \<Rightarrow> error + jsstring"

section \<open>getTextPreview (index.js, lines 33 to 63)\<close>

definition MAX_TEXT_LENGTH :: nat where
  "MAX_TEXT_LENGTH = 24000"

text \<open>\<open>`TextPreview/${fileFingerprint}/${page}.txt`\<close>\<close>

definition pageKey :: "jsvalue \<Rightarrow> nat \<Rightarrow> jsstring" where
  "pageKey fileFingerprint page =
     js ''TextPreview/'' @ toString fileFingerprint @ js ''/'' @ digits page @ js ''.txt''"

text \<open>
  The \<open>while\<close> loop, with its two variables as arguments. The loop has no bound on the
  number of rounds, so the function is partial: \<open>None\<close> is a loop that never ends. A
  result \<open>Some (Inr t)\<close> is the value of \<open>textPreview\<close> when the loop is left (by its
  condition or by \<open>break\<close>), \<open>Some (Inl e)\<close> is the error thrown again by the handler.
  \<open>(await response.Body.transformToString()) || ""\<close> is the body itself: the only falsy
  string is the empty one. The page counter is a natural number; a JavaScript number
  counts exactly far beyond any number of pages a run can request.
\<close>

partial_function (option) previewLoop ::
  "storage \<Rightarrow> jsvalue \<Rightarrow> nat \<Rightarrow> jsstring \<Rightarrow> (error + jsstring) option" where
  "previewLoop client fileFingerprint page textPreview =
     (if length textPreview < MAX_TEXT_LENGTH then
        (case client (pageKey fileFingerprint page) of
           Inr str \<Rightarrow>
             previewLoop client fileFingerprint (page + 1) (textPreview @ normalizePage str)
         | Inl error \<Rightarrow>
             if isNoSuchKey error then Some (Inr textPreview) else Some (Inl error))
      else Some (Inr textPreview))"

declare previewLoop.simps [code]

text \<open>\<open>page = 1\<close>, \<open>textPreview = ""\<close>, the loop, then \<open>textPreview.slice(0, MAX_TEXT_LENGTH)\<close>.\<close>

definition getTextPreview :: "storage \<Rightarrow> jsvalue \<Rightarrow> (error + jsstring) option" where
  "getTextPreview client fileFingerprint =
     (case previewLoop client fileFingerprint 1 [] of
        None \<Rightarrow> None
      | Some (Inl error) \<Rightarrow> Some (Inl error)
      | Some (Inr textPreview) \<Rightarrow> Some (Inr (take MAX_TEXT_LENGTH textPreview)))"

section \<open>detectLanguage (index.js, lines 65 to 84)\<close>

text \<open>
  The detection service answers a text with the parsed JSON body, of which the program
  reads \<open>language\<close>: absent, or a list of candidate objects. The request can fail. The
  legacy detector \<open>langdetect.detect(text, 1)\<close> answers with its guesses in rank order;
  only the language name of a guess is read.
\<close>

type_synonym detectionService = "jsstring \<Rightarrow> error + jsobject list option"
type_synonym legacyDetector = "jsstring \<Rightarrow> jsstring list"

text \<open>
  \<open>language[0].codex\<close> throws a \<open>TypeError\<close> when \<open>language\<close> is absent or empty;
  \<open>langdetect.detect(textPreview, 1)?.[0]?.[0] || ""\<close> is the first name or the empty string.
\<close>

definition detectLanguage ::
  "detectionService \<Rightarrow> legacyDetector \<Rightarrow> jsstring \<Rightarrow> error + jsvalue \<times> jsvalue" where
  "detectLanguage fetch langdetect textPreview =
     (case fetch textPreview of
        Inl error \<Rightarrow> Inl error
      | Inr None \<Rightarrow> Inl TypeError
      | Inr (Some []) \<Rightarrow> Inl TypeError
      | Inr (Some (candidate # rest)) \<Rightarrow>
          Inr (getProp candidate ''codex'',
               JStr (case langdetect textPreview of [] \<Rightarrow> [] | name # others \<Rightarrow> name)))"

section \<open>aggregateResults (index.js, lines 86 to 138)\<close>

text \<open>
  What the program does to the outside, in the order it does it: a line on the console
  (the message and the values printed after it), the start of the CSV read, a file
  written with a JSON array.
\<close>

datatype effect =
    ConsoleLog string "jsvalue list"
  | ReadCsv string
  | WriteFile string "jsobject list"

record buckets =
  differentResults :: "jsobject list"
  sameAsCurrent :: "jsobject list"
  sameAsExpected :: "jsobject list"

text \<open>The arrow function of \<open>results.map\<close>: six properties are read and put in a new object.\<close>

definition pick :: "jsobject \<Rightarrow> jsobject" where
  "pick result =
     [(''id'', getProp result ''id''),
      (''name'', getProp result ''name''),
      (''currentLanguage'', getProp result ''currentLanguage''),
      (''expectedLanguage'', getProp result ''expectedLanguage''),
      (''newDetectedLanguage'', getProp result ''newDetectedLanguage''),
      (''oldDetectedLanguage'', getProp result ''oldDetectedLanguage'')]"

definition aggregateResults :: "jsobject list \<Rightarrow> string \<Rightarrow> buckets \<times> effect list" where
  "aggregateResults results outputFolder =
     (let newResults = map pick results;
          differentResults = filter (\<lambda>result.
              getProp result ''expectedLanguage'' \<noteq> getProp result ''newDetectedLanguage'' \<and>
              getProp result ''currentLanguage'' \<noteq> getProp result ''newDetectedLanguage'')
            newResults;
          sameAsCurrent = filter (\<lambda>result.
              getProp result ''currentLanguage'' = getProp result ''newDetectedLanguage'')
            newResults;
          sameAsExpected = filter (\<lambda>result.
              getProp result ''expectedLanguage'' = getProp result ''newDetectedLanguage'')
            newResults
      in (\<lparr>differentResults = differentResults,
           sameAsCurrent = sameAsCurrent,
           sameAsExpected = sameAsExpected\<rparr>,
          [WriteFile (outputFolder @ ''/different-than-expected-and-current.json'') differentResults,
           WriteFile (outputFolder @ ''/same-as-current.json'') sameAsCurrent,
           WriteFile (outputFolder @ ''/same-as-expected.json'') sameAsExpected]))"

section \<open>getSample and getSamples (index.js, lines 140 to 169)\<close>

text \<open>
  \<open>results.sort(() => 0.5 - Math.random())\<close> is the sort of the runtime, called with a
  comparator that ignores its arguments and answers by chance. The runtime's sort is not
  part of the program: it is the parameter \<open>arraySort\<close>, the array it leaves behind for the
  array it is given. Then \<open>shuffled.slice(0, sampleSize)\<close>.
\<close>

definition sampleSize :: nat where
  "sampleSize = 25"

definition getSample :: "('a list \<Rightarrow> 'a list) \<Rightarrow> 'a list \<Rightarrow> 'a list" where
  "getSample arraySort results = (let shuffled = arraySort results in take sampleSize shuffled)"

definition getSamples ::
  "(jsobject list \<Rightarrow> jsobject list) \<Rightarrow> jsobject list \<Rightarrow> jsobject list \<Rightarrow> jsobject list \<Rightarrow>
     string \<Rightarrow> effect list" where
  "getSamples arraySort differentResults' sameAsCurrent' sameAsExpected' outputFolder =
     (let differentResultsSample = getSample arraySort differentResults';
          sameAsCurrentSample = getSample arraySort sameAsCurrent';
          sameAsExpectedSample = getSample arraySort sameAsExpected'
      in [WriteFile (outputFolder @ ''/manual-analysis/different-than-expected-and-current-sample.json'')
            differentResultsSample,
          WriteFile (outputFolder @ ''/manual-analysis/same-as-current-sample.json'')
            sameAsCurrentSample,
          WriteFile (outputFolder @ ''/manual-analysis/same-as-expected-sample.json'')
            sameAsExpectedSample])"

section \<open>runJob (index.js, lines 10 to 25 and 171 to 229)\<close>

record jobData =
  materials :: string
  currentLanguage :: jsstring
  expectedLanguage :: jsstring
  output' :: string
  aggregatedResultsFolder :: string

definition fileData :: "string \<Rightarrow> jobData option" where
  "fileData key =
     (if key = ''es'' then
        Some \<lparr>materials = ''materiais-studenta-marcados-como-pt.csv'',
              currentLanguage = js ''pt'',
              expectedLanguage = js ''es'',
              output' = ''results/results-materiais-studenta-marcados-como-pt.json'',
              aggregatedResultsFolder = ''aggregated-results/materiais-studenta''\<rparr>
      else if key = ''pt'' then
        Some \<lparr>materials = ''materiais-pd-marcados-como-es.csv'',
              currentLanguage = js ''es'',
              expectedLanguage = js ''pt'',
              output' = ''results/results-materiais-pd-marcados-como-es.json'',
              aggregatedResultsFolder = ''aggregated-results/materiais-pd''\<rparr>
      else None)"

text \<open>
  The collaborators of a run: the object storage, \<open>csv().fromFile\<close> (the rows of a file,
  or an error), the detection service, the legacy detector and the runtime's sort.
\<close>

record env =
  envClient :: storage
  envCsv :: "string \<Rightarrow> error + jsobject list"
  envFetch :: detectionService
  envLangdetect :: legacyDetector
  envSort :: "jsobject list \<Rightarrow> jsobject list"

text \<open>
  The asynchronous arrow function of \<open>files.map\<close>: one row to one result record, or the
  error that rejects it, or \<open>None\<close> when the preview loop never ends.
\<close>

definition processFile :: "env \<Rightarrow> jobData \<Rightarrow> jsobject \<Rightarrow> (error + jsobject) option" where
  "processFile e d file =
     (case getTextPreview (envClient e) (getProp file ''fileurl'') of
        None \<Rightarrow> None
      | Some (Inl error) \<Rightarrow> Some (Inl error)
      | Some (Inr textPreview) \<Rightarrow>
          (case detectLanguage (envFetch e) (envLangdetect e) textPreview of
             Inl error \<Rightarrow> Some (Inl error)
           | Inr (language, oldLanguage) \<Rightarrow>
               Some (Inr
                 [(''id'', getProp file ''id''),
                  (''name'', getProp file ''name''),
                  (''fileurl'', getProp file ''fileurl''),
                  (''currentLanguage'', JStr (currentLanguage d)),
                  (''expectedLanguage'', JStr (expectedLanguage d)),
                  (''newDetectedLanguage'', language),
                  (''oldDetectedLanguage'', oldLanguage),
                  (''textPreviewLength'', JNum (int (length textPreview))),
                  (''textPreview'', JStr textPreview)])))"

text \<open>
  \<open>Promise.all\<close>: rejected as soon as one promise is rejected, fulfilled with all values in
  the order of the array when all are fulfilled, pending otherwise. Of several
  rejections the one that happens first wins; the model takes the first in the array.
\<close>

fun rejections :: "(error + 'a) option list \<Rightarrow> error list" where
  "rejections [] = []"
| "rejections (Some (Inl error) # ps) = error # rejections ps"
| "rejections (p # ps) = rejections ps"

fun fulfilments :: "(error + 'a) option list \<Rightarrow> 'a list option" where
  "fulfilments [] = Some []"
| "fulfilments (Some (Inr v) # ps) =
     (case fulfilments ps of None \<Rightarrow> None | Some vs \<Rightarrow> Some (v # vs))"
| "fulfilments (p # ps) = None"

definition promiseAll :: "(error + 'a) option list \<Rightarrow> (error + 'a list) option" where
  "promiseAll ps =
     (case rejections ps of
        error # others \<Rightarrow> Some (Inl error)
      | [] \<Rightarrow> (case fulfilments ps of None \<Rightarrow> None | Some vs \<Rightarrow> Some (Inr vs)))"

text \<open>
  An asynchronous function runs until its first \<open>await\<close> when it is called, and each later
  stretch between two \<open>await\<close>s runs on its own once the awaited promise is settled.
  \<open>runJob\<close> has three stretches: up to \<open>await csv().fromFile(materials)\<close>, up to
  \<open>await Promise.all(...)\<close>, and the rest. The requests to the storage and to the detection
  service are not among the recorded effects; \<open>fs.writeFileSync\<close> is taken to succeed.
\<close>

datatype outcome = Fulfilled | Rejected error | Pending

definition readingStretch :: "jobData \<Rightarrow> effect list" where
  "readingStretch d = [ConsoleLog ''Reading file...'' [], ReadCsv (materials d)]"

definition fetchingStretch :: "effect list" where
  "fetchingStretch = [ConsoleLog ''Fetching results...'' []]"

definition writingStretch :: "env \<Rightarrow> string \<Rightarrow> jobData \<Rightarrow> jsobject list \<Rightarrow> effect list" where
  "writingStretch e key d results =
     (let (b, written) = aggregateResults results (aggregatedResultsFolder d)
      in [ConsoleLog ''Writing results...'' [],
          WriteFile (output' d) results,
          ConsoleLog ''Analysing results for key: '' [JStr (js key), JStr (js ''...'')]]
         @ written @
         [ConsoleLog ''Different than expected and current: ''
            [JNum (int (length (differentResults b)))],
          ConsoleLog ''Same as current: '' [JNum (int (length (sameAsCurrent b)))],
          ConsoleLog ''Same as expected: '' [JNum (int (length (sameAsExpected b)))],
          ConsoleLog ''Total: '' [JNum (int (length results))],
          ConsoleLog ''Getting sample for manual analysis...'' []]
         @ getSamples (envSort e) (differentResults b) (sameAsCurrent b) (sameAsExpected b)
             (aggregatedResultsFolder d)
         @ [ConsoleLog ''Done!'' []])"

text \<open>The value of \<open>await Promise.all(files.map(...))\<close> in \<open>runJob\<close>.\<close>

definition jobResults :: "env \<Rightarrow> jobData \<Rightarrow> jsobject list \<Rightarrow> (error + jsobject list) option" where
  "jobResults e d files = promiseAll (map (processFile e d) files)"

text \<open>The stretches of \<open>runJob(key)\<close> that run, in order, and how its promise ends.\<close>

definition runJob :: "env \<Rightarrow> string \<Rightarrow> effect list list \<times> outcome" where
  "runJob e key =
     (case fileData key of
        None \<Rightarrow> ([], Rejected TypeError)
      | Some d \<Rightarrow>
          (case envCsv e (materials d) of
             Inl error \<Rightarrow> ([readingStretch d], Rejected error)
           | Inr files \<Rightarrow>
               (case jobResults e d files of
                  None \<Rightarrow> ([readingStretch d, fetchingStretch], Pending)
                | Some (Inl error) \<Rightarrow> ([readingStretch d, fetchingStretch], Rejected error)
                | Some (Inr results) \<Rightarrow>
                    ([readingStretch d, fetchingStretch, writingStretch e key d results],
                     Fulfilled))))"

section \<open>The program (index.js, lines 287 and 288)\<close>

text \<open>
  \<open>runJob("pt"); runJob("es");\<close> Neither promise is awaited. The first stretch of the
  first call runs, then the first stretch of the second call; the later stretches of the
  two jobs run afterwards, each job's in its own order, in any order between the jobs
  (it depends on when the awaited reads and requests end). An execution is what has
  happened when the process stops, which can be after any stretch: a rejected job ends
  the process. Each effect is tagged with the key of its job.
\<close>

fun interleave :: "'a list \<Rightarrow> 'a list \<Rightarrow> 'a list list" where
  "interleave [] ys = [ys]"
| "interleave (x # xs) [] = [x # xs]"
| "interleave (x # xs) (y # ys) =
     map ((#) x) (interleave xs (y # ys)) @ map ((#) y) (interleave (x # xs) ys)"

definition stretches :: "env \<Rightarrow> string \<Rightarrow> (string \<times> effect) list list" where
  "stretches e key = map (map (Pair key)) (fst (runJob e key))"

definition executions :: "env \<Rightarrow> (string \<times> effect) list list" where
  "executions e =
     (let pt = stretches e ''pt''; es = stretches e ''es''
      in concat (map (\<lambda>later.
           map (\<lambda>n. concat (take 1 pt @ take 1 es @ take n later)) [0..<Suc (length later)])
           (interleave (drop 1 pt) (drop 1 es))))"

section \<open>countManualAnalysisResults (index.js, lines 231 to 285)\<close>

record counters =
  correct :: nat
  incorrect :: nat

text \<open>The object \<open>result\<close>: a counter pair under each of its property names.\<close>

type_synonym tally = "(string \<times> counters) list"

definition initialResult :: tally where
  "initialResult =
     [(''newMethod'', \<lparr>correct = 0, incorrect = 0\<rparr>),
      (''oldMethod'', \<lparr>correct = 0, incorrect = 0\<rparr>)]"

text \<open>
  \<open>result.m.correct++\<close> and \<open>result.m.incorrect++\<close> for a property name \<open>m\<close>: where
  \<open>result.m\<close> is \<open>undefined\<close>, reading its counter throws a \<open>TypeError\<close>.
\<close>

definition increment :: "string \<Rightarrow> (counters \<Rightarrow> counters) \<Rightarrow> tally \<Rightarrow> error + tally" where
  "increment m f result =
     (case map_of result m of
        None \<Rightarrow> Inl TypeError
      | Some c \<Rightarrow> Inr (map (\<lambda>(k, v). if k = m then (k, f v) else (k, v)) result))"

definition countItem :: "tally \<Rightarrow> jsobject \<Rightarrow> error + tally" where
  "countItem result item =
     (case (if getProp item ''newAnalysis'' = JStr (js ''Correto'')
            then increment ''new'' (correct_update Suc) result
            else increment ''new'' (incorrect_update Suc) result) of
        Inl error \<Rightarrow> Inl error
      | Inr result' \<Rightarrow>
          (if getProp item ''oldAnalysis'' = JStr (js ''Correto'')
           then increment ''old'' (correct_update Suc) result'
           else increment ''old'' (incorrect_update Suc) result'))"

fun countItems :: "tally \<Rightarrow> jsobject list \<Rightarrow> error + tally" where
  "countItems result [] = Inr result"
| "countItems result (item # items) =
     (case countItem result item of
        Inl error \<Rightarrow> Inl error
      | Inr result' \<Rightarrow> countItems result' items)"

definition folders :: "string list" where
  "folders = [''aggregated-results/materiais-studenta'', ''aggregated-results/materiais-pd'']"

text \<open>
  The body of \<open>folders.forEach\<close>; \<open>readJson\<close> is \<open>JSON.parse(fs.readFileSync(path))\<close>, the
  array in the file or the error of reading or parsing it.
\<close>

definition countFolder ::
  "(string \<Rightarrow> error + jsobject list) \<Rightarrow> tally \<Rightarrow> string \<Rightarrow> error + tally" where
  "countFolder readJson result folder =
     (case readJson (folder @ ''/manual-analysis/different-than-expected-and-current-sample.json'') of
        Inl error \<Rightarrow> Inl error
      | Inr differentThanExpectedAndCurrent \<Rightarrow>
          (case readJson (folder @ ''/manual-analysis/same-as-current-sample.json'') of
             Inl error \<Rightarrow> Inl error
           | Inr sameAsCurrent' \<Rightarrow>
               (case readJson (folder @ ''/manual-analysis/same-as-expected-sample.json'') of
                  Inl error \<Rightarrow> Inl error
                | Inr sameAsExpected' \<Rightarrow>
                    countItems result
                      (differentThanExpectedAndCurrent @ sameAsCurrent' @ sameAsExpected'))))"

fun countFolders ::
  "(string \<Rightarrow> error + jsobject list) \<Rightarrow> tally \<Rightarrow> string list \<Rightarrow> error + tally" where
  "countFolders readJson result [] = Inr result"
| "countFolders readJson result (folder # rest) =
     (case countFolder readJson result folder of
        Inl error \<Rightarrow> Inl error
      | Inr result' \<Rightarrow> countFolders readJson result' rest)"

text \<open>The object printed by \<open>console.log({ result })\<close>, or the error thrown on the way.\<close>

definition countManualAnalysisResults :: "(string \<Rightarrow> error + jsobject list) \<Rightarrow> error + tally" where
  "countManualAnalysisResults readJson = countFolders readJson initialResult folders"

section \<open>Notions used in the statements\<close>

text \<open>
  The normalized text of page \<open>i\<close> of a document (empty where the page cannot be
  fetched), the text assembled from the pages \<open>a\<close> up to \<open>b - 1\<close>, and the two situations
  of the loop of \<open>getTextPreview\<close>: \<open>appended\<close> says that each of the pages \<open>a\<close> up to
  \<open>b - 1\<close> was fetched and appended to an accumulator still shorter than the maximum;
  \<open>leaves\<close> says that the loop, about to request page \<open>n\<close> with the accumulator
  \<open>final\<close>, ends there with \<open>r\<close>.
\<close>

definition pageText :: "storage \<Rightarrow> jsvalue \<Rightarrow> nat \<Rightarrow> jsstring" where
  "pageText client fileFingerprint i =
     (case client (pageKey fileFingerprint i) of Inr str \<Rightarrow> normalizePage str | Inl error \<Rightarrow> [])"

definition assembled :: "storage \<Rightarrow> jsvalue \<Rightarrow> nat \<Rightarrow> nat \<Rightarrow> jsstring" where
  "assembled client fileFingerprint a b = concat (map (pageText client fileFingerprint) [a..<b])"

definition appended :: "storage \<Rightarrow> jsvalue \<Rightarrow> jsstring \<Rightarrow> nat \<Rightarrow> nat \<Rightarrow> bool" where
  "appended client fileFingerprint acc a b =
     list_all (\<lambda>i. \<not> isl (client (pageKey fileFingerprint i)) \<and>
                    length (acc @ assembled client fileFingerprint a i) < MAX_TEXT_LENGTH) [a..<b]"

definition leaves :: "storage \<Rightarrow> jsvalue \<Rightarrow> nat \<Rightarrow> jsstring \<Rightarrow> error + jsstring \<Rightarrow> bool" where
  "leaves client fileFingerprint n final r =
     (if length final < MAX_TEXT_LENGTH then
        (case client (pageKey fileFingerprint n) of
           Inl error \<Rightarrow> r = (if isNoSuchKey error then Inr final else Inl error)
         | Inr str \<Rightarrow> False)
      else r = Inr final)"

text \<open>
  The nine properties of a result record as \<open>runJob\<close> builds it, and the six that the arrow
  function of \<open>aggregateResults\<close> copies.
\<close>

definition resultRecordFields :: "string list" where
  "resultRecordFields =
     [''id'', ''name'', ''fileurl'', ''currentLanguage'', ''expectedLanguage'',
      ''newDetectedLanguage'', ''oldDetectedLanguage'', ''textPreviewLength'', ''textPreview'']"

definition isResultRecord :: "jsobject \<Rightarrow> bool" where
  "isResultRecord obj = list_all (\<lambda>k. k \<in> set (keys obj)) resultRecordFields"

definition pickedFields :: "string list" where
  "pickedFields =
     [''id'', ''name'', ''currentLanguage'', ''expectedLanguage'',
      ''newDetectedLanguage'', ''oldDetectedLanguage'']"

text \<open>
  The effects of one job in an execution, and the order claimed for the two jobs: every
  effect of the job \<open>pt\<close> before every effect of the job \<open>es\<close>. \<open>tagged\<close> says that all
  effects of some stretches belong to one job.
\<close>

definition ofJob :: "string \<Rightarrow> (string \<times> effect) list \<Rightarrow> (string \<times> effect) list" where
  "ofJob key t = filter (\<lambda>tagged. fst tagged = key) t"

definition sequentialJobs :: "(string \<times> effect) list \<Rightarrow> bool" where
  "sequentialJobs t = list_all (\<lambda>key. key = ''es'') (dropWhile (\<lambda>key. key = ''pt'') (map fst t))"

definition tagged :: "string \<Rightarrow> (string \<times> effect) list list \<Rightarrow> bool" where
  "tagged key segs = list_all (list_all (\<lambda>ev. fst ev = key)) segs"

text \<open>
  Three properties of a string: the URL pattern matches at none of its positions; it has
  no two spaces in a row; it is empty or neither begins nor ends with a space.
\<close>

fun noUrl :: "jsstring \<Rightarrow> bool" where
  "noUrl [] = True"
| "noUrl (c # cs) = (matchUrl (c # cs) = None \<and> noUrl cs)"

fun noRun :: "jsstring \<Rightarrow> bool" where
  "noRun [] = True"
| "noRun [c] = True"
| "noRun (c # d # cs) = (\<not> (isSpace c \<and> isSpace d) \<and> noRun (d # cs))"

definition trimmed :: "jsstring \<Rightarrow> bool" where
  "trimmed t = (t = [] \<or> (\<not> isSpace (hd t) \<and> \<not> isSpace (last t)))"

section \<open>Concrete inputs\<close>

text \<open>
  A document \<open>f1\<close> of two pages, \<open>"Hello "\<close> and \<open>"World"\<close>; every other key is missing.
\<close>

definition storageA :: storage where
  "storageA key =
     (if key = js ''TextPreview/f1/1.txt'' then Inr (js ''Hello '')
      else if key = js ''TextPreview/f1/2.txt'' then Inr (js ''World'')
      else Inl (S3Error (js ''NoSuchKey'')))"

text \<open>The same document on a storage that refuses the second page.\<close>

definition storageDenied :: storage where
  "storageDenied key =
     (if key = js ''TextPreview/f1/1.txt'' then Inr (js ''Hello '')
      else Inl (S3Error (js ''AccessDenied'')))"

text \<open>A document whose first page has 24001 letters \<open>a\<close>.\<close>

definition storageLong :: storage where
  "storageLong key =
     (if key = js ''TextPreview/f1/1.txt'' then Inr (replicate 24001 (of_char CHR ''a''))
      else Inl (S3Error (js ''NoSuchKey'')))"

text \<open>The same first page on a storage that refuses every other page.\<close>

definition storageLongDenied :: storage where
  "storageLongDenied key =
     (if key = js ''TextPreview/f1/1.txt'' then Inr (replicate 24001 (of_char CHR ''a''))
      else Inl (S3Error (js ''AccessDenied'')))"

text \<open>A storage on which every page exists and holds one space.\<close>

definition storageBlank :: storage where
  "storageBlank key = Inr (js '' '')"

text \<open>
  Scenario A: the job \<open>es\<close> (current label \<open>pt\<close>, expected label \<open>es\<close>) on a CSV file with
  the one row \<open>{id: 1, fileurl: "f1", name: "Doc1"}\<close>, the storage above, a detection
  service that answers \<open>codex: "en"\<close>, a legacy detector that answers \<open>"en"\<close>, and a sort
  that leaves the array as it is. \<open>recordA\<close> is the result record of that row.
\<close>

definition rowA :: jsobject where
  "rowA = [(''id'', JNum 1), (''fileurl'', JStr (js ''f1'')), (''name'', JStr (js ''Doc1''))]"

definition candidateEn :: jsobject where
  "candidateEn = [(''codex'', JStr (js ''en''))]"

definition scenarioA :: env where
  "scenarioA =
     \<lparr>envClient = storageA,
      envCsv = (\<lambda>path. if path = ''materiais-studenta-marcados-como-pt.csv'' then Inr [rowA]
                        else Inr []),
      envFetch = (\<lambda>text. Inr (Some [candidateEn])),
      envLangdetect = (\<lambda>text. [js ''en'']),
      envSort = (\<lambda>xs. xs)\<rparr>"

definition jobEs :: jobData where
  "jobEs =
     \<lparr>materials = ''materiais-studenta-marcados-como-pt.csv'',
      currentLanguage = js ''pt'',
      expectedLanguage = js ''es'',
      output' = ''results/results-materiais-studenta-marcados-como-pt.json'',
      aggregatedResultsFolder = ''aggregated-results/materiais-studenta''\<rparr>"

definition recordA :: jsobject where
  "recordA =
     [(''id'', JNum 1),
      (''name'', JStr (js ''Doc1'')),
      (''fileurl'', JStr (js ''f1'')),
      (''currentLanguage'', JStr (js ''pt'')),
      (''expectedLanguage'', JStr (js ''es'')),
      (''newDetectedLanguage'', JStr (js ''en'')),
      (''oldDetectedLanguage'', JStr (js ''en'')),
      (''textPreviewLength'', JNum 10),
      (''textPreview'', JStr (js ''HelloWorld''))]"

text \<open>
  The execution of scenario A (the CSV file of the job \<open>pt\<close> is empty) in which each
  awaited operation of \<open>pt\<close> ends before the corresponding one of \<open>es\<close>.
\<close>

definition jobPt :: jobData where
  "jobPt =
     \<lparr>materials = ''materiais-pd-marcados-como-es.csv'',
      currentLanguage = js ''es'',
      expectedLanguage = js ''pt'',
      output' = ''results/results-materiais-pd-marcados-como-es.json'',
      aggregatedResultsFolder = ''aggregated-results/materiais-pd''\<rparr>"

definition runA :: "(string \<times> effect) list" where
  "runA = concat
     [map (Pair ''pt'') (readingStretch jobPt),
      map (Pair ''es'') (readingStretch jobEs),
      map (Pair ''pt'') fetchingStretch,
      map (Pair ''pt'') (writingStretch scenarioA ''pt'' jobPt []),
      map (Pair ''es'') fetchingStretch,
      map (Pair ''es'') (writingStretch scenarioA ''es'' jobEs [recordA])]"

text \<open>
  Annotated samples for the tally: one record, marked correct for both detectors, in one
  of the six files; the other five hold empty arrays.
\<close>

definition annotated :: jsobject where
  "annotated = [(''newAnalysis'', JStr (js ''Correto'')), (''oldAnalysis'', JStr (js ''Correto''))]"

definition oneAnnotated :: "string \<Rightarrow> error + jsobject list" where
  "oneAnnotated path =
     (if path = ''aggregated-results/materiais-studenta/manual-analysis/same-as-expected-sample.json''
      then Inr [annotated] else Inr [])"

section \<open>Evaluation\<close>

lemmas char_defs = SP_def TAB_def LF_def CR_def LS_def PS_def isSpace_def isCrLfTab_def
  isLineTerminator_def

lemmas page_defs = normalizePage_def stripEnds_def removeCrLfTab_def stripUrls.simps matchUrl_eq
  HTTP_def js_def pageKey_def digits.simps

lemmas preview_defs = getTextPreview_def previewLoop.simps MAX_TEXT_LENGTH_def

section \<open>Page normalization applied twice\<close>

subsection \<open>The characters of the URL pattern\<close>

lemma HTTP_chars: "HTTP = [104, 116, 116, 112]"
  by (simp add: HTTP_def js_def)

lemma HTTP_plain: "c \<in> set HTTP \<Longrightarrow> \<not> isSpace c \<and> \<not> isLineTerminator c"
  by (auto simp: HTTP_chars char_defs)

lemma isSpace_SP: "isSpace SP"
  by (simp add: isSpace_def)

lemma matchUrl_space: "isSpace c \<Longrightarrow> matchUrl (c # cs) = None"
  by (auto simp: matchUrl_eq HTTP_chars char_defs)

lemma matchUrl_Some:
  "matchUrl s = Some r \<longleftrightarrow> (\<exists>rest. s = HTTP @ rest \<and> lazyDot rest = Some r)"
proof
  assume a: "matchUrl s = Some r"
  then have "take 4 s = HTTP" "lazyDot (drop 4 s) = Some r"
    by (simp_all add: matchUrl_eq split: if_splits)
  then have "s = HTTP @ drop 4 s \<and> lazyDot (drop 4 s) = Some r"
    by (metis append_take_drop_id)
  then show "\<exists>rest. s = HTTP @ rest \<and> lazyDot rest = Some r"
    by blast
next
  assume "\<exists>rest. s = HTTP @ rest \<and> lazyDot rest = Some r"
  then show "matchUrl s = Some r"
    by (auto simp: matchUrl_eq HTTP_length)
qed

lemma matchUrl_HTTP: "matchUrl (HTTP @ rest) = lazyDot rest"
  by (simp add: matchUrl_eq HTTP_length)

lemma matchUrl_not_HTTP: "\<not> prefix HTTP s \<Longrightarrow> matchUrl s = None"
  by (auto simp: matchUrl_eq prefix_def) (metis append_take_drop_id)

lemma lazyDot_plain:
  "\<forall>c\<in>set w. \<not> isSpace c \<and> \<not> isLineTerminator c \<Longrightarrow> lazyDot (w @ rest) = lazyDot rest"
  by (induction w) simp_all

lemma lazyDot_HTTP: "lazyDot (HTTP @ rest) = lazyDot rest"
  by (rule lazyDot_plain) (simp add: HTTP_plain)

subsection \<open>What the steps leave of a string\<close>

lemma lazyDot_suffix: "lazyDot s = Some r \<Longrightarrow> suffix r s"
  by (induction s) (auto split: if_splits intro: suffix_ConsI)

lemma matchUrl_suffix: "matchUrl s = Some r \<Longrightarrow> suffix r s"
  by (auto simp: matchUrl_Some dest!: lazyDot_suffix intro: suffix_appendI)

lemma lazyDot_rest: "lazyDot s = Some r \<Longrightarrow> r = [] \<or> isSpace (hd r)"
  by (induction s) (auto split: if_splits)

lemma set_stripUrls: "set (stripUrls s) \<subseteq> set s"
proof (induction s rule: stripUrls.induct)
  case 1
  show ?case by simp
next
  case (2 c cs)
  show ?case
  proof (cases "matchUrl (c # cs)")
    case None
    with 2 show ?thesis by auto
  next
    case (Some r)
    with 2 have "set (stripUrls r) \<subseteq> set r" by simp
    moreover from matchUrl_suffix [OF Some] have "set r \<subseteq> set (c # cs)"
      by (rule set_mono_suffix)
    ultimately show ?thesis using Some by auto
  qed
qed

lemma set_collapseSpaces: "set (collapseSpaces s) \<subseteq> set s"
proof (induction s rule: collapseSpaces.induct)
  case 1
  show ?case by simp
next
  case (2 c cs)
  then show ?case
    by (auto simp: isSpace_def dest: set_dropWhileD)
qed

lemma set_stripEnds: "set (stripEnds s) \<subseteq> set s"
  by (auto simp: stripEnds_def dest!: set_dropWhileD)

lemma removeCrLfTab_id: "\<forall>c\<in>set s. \<not> isCrLfTab c \<Longrightarrow> removeCrLfTab s = s"
  by (simp add: removeCrLfTab_def)

lemma normalizePage_plain: "c \<in> set (normalizePage s) \<Longrightarrow> \<not> isCrLfTab c"
  using set_stripUrls [of "removeCrLfTab (stripEnds (collapseSpaces s))"]
  by (auto simp: normalizePage_def removeCrLfTab_def)

subsection \<open>Strings on which the URL pattern matches nowhere\<close>

lemma stripUrls_None: "matchUrl (c # cs) = None \<Longrightarrow> stripUrls (c # cs) = c # stripUrls cs"
  by simp

lemma stripUrls_Some: "matchUrl (c # cs) = Some r \<Longrightarrow> stripUrls (c # cs) = stripUrls r"
  by simp

declare stripUrls.simps(2) [simp del]

lemma noUrl_stripUrls_id: "noUrl t \<Longrightarrow> stripUrls t = t"
  by (induction t) (simp_all add: stripUrls_None)

lemma noUrl_append: "noUrl (a @ b) \<Longrightarrow> noUrl b"
  by (induction a) simp_all

lemma noUrl_suffix: "suffix b t \<Longrightarrow> noUrl t \<Longrightarrow> noUrl b"
  by (auto simp: suffix_def dest: noUrl_append)

lemma noUrl_dropWhile: "noUrl t \<Longrightarrow> noUrl (dropWhile P t)"
  by (rule noUrl_suffix [OF suffix_dropWhile])

text \<open>A character that is not the first of \<open>http\<close> starts no match.\<close>

lemma matchUrl_other: "c \<noteq> 104 \<Longrightarrow> matchUrl (c # cs) = None"
  by (auto simp: matchUrl_eq HTTP_chars)

lemma stripUrls_other: "c \<noteq> 104 \<Longrightarrow> stripUrls (c # cs) = c # stripUrls cs"
  by (simp add: matchUrl_other stripUrls_None)

lemma stripUrls_space: "isSpace c \<Longrightarrow> stripUrls (c # cs) = c # stripUrls cs"
  by (simp add: matchUrl_space stripUrls_None)

lemma stripUrls_rest: "r = [] \<or> isSpace (hd r) \<Longrightarrow> stripUrls r = [] \<or> isSpace (hd (stripUrls r))"
  by (cases r) (auto simp: stripUrls_space)

text \<open>A word without spaces at the head of the output was at the head of the input.\<close>

lemma stripUrls_prefix:
  "prefix w (stripUrls s) \<Longrightarrow> \<forall>c\<in>set w. \<not> isSpace c \<Longrightarrow> prefix w s"
proof (induction s arbitrary: w rule: stripUrls.induct)
  case 1
  then show ?case by simp
next
  case (2 c cs)
  show ?case
  proof (cases "matchUrl (c # cs)")
    case None
    show ?thesis
    proof (cases w)
      case Nil
      then show ?thesis by simp
    next
      case (Cons x w')
      with 2(3) None have "x = c" "prefix w' (stripUrls cs)"
        by (simp_all add: stripUrls_None)
      moreover from 2(4) Cons have "\<forall>c\<in>set w'. \<not> isSpace c"
        by simp
      ultimately show ?thesis
        using 2(1) [OF None] Cons by simp
    qed
  next
    case (Some r)
    then obtain rest where "lazyDot rest = Some r"
      by (auto simp: matchUrl_Some)
    from stripUrls_rest [OF lazyDot_rest [OF this]]
    have "stripUrls r = [] \<or> isSpace (hd (stripUrls r))" .
    moreover from 2(3) Some have "prefix w (stripUrls r)"
      by (simp add: stripUrls_Some)
    ultimately have "w = []"
      using 2(4) by (cases w) (auto simp: prefix_def)
    then show ?thesis by simp
  qed
qed

text \<open>If the dot cannot reach a space or the end before, it cannot after the removal.\<close>

lemma lazyDot_stripUrls: "lazyDot s = None \<Longrightarrow> lazyDot (stripUrls s) = None"
proof (induction s rule: stripUrls.induct)
  case 1
  then show ?case by simp
next
  case (2 c cs)
  show ?case
  proof (cases "matchUrl (c # cs)")
    case None
    with 2(1) [OF None] 2(3) show ?thesis
      by (auto simp: stripUrls_None split: if_splits)
  next
    case (Some r)
    then obtain rest where "c # cs = HTTP @ rest" "lazyDot rest = Some r"
      by (auto simp: matchUrl_Some)
    then have "lazyDot (c # cs) = Some r"
      by (simp add: lazyDot_HTTP)
    with 2(3) show ?thesis by simp
  qed
qed

lemma stripUrls_ttp: "stripUrls (116 # 116 # 112 # rest) = 116 # 116 # 112 # stripUrls rest"
  by (simp add: stripUrls_other)

lemma matchUrl_stripUrls:
  assumes "matchUrl (c # cs) = None"
  shows "matchUrl (c # stripUrls cs) = None"
proof (cases "prefix HTTP (c # stripUrls cs)")
  case False
  then show ?thesis by (rule matchUrl_not_HTTP)
next
  case True
  then have c: "c = 104" and p: "prefix [116, 116, 112] (stripUrls cs)"
    by (simp_all add: HTTP_chars)
  have "prefix [116, 116, 112] cs"
    by (rule stripUrls_prefix [OF p]) (simp add: char_defs)
  then obtain rest where cs: "cs = 116 # 116 # 112 # rest"
    by (auto simp: prefix_def)
  with c have "c # cs = HTTP @ rest"
    by (simp add: HTTP_chars)
  with assms have "lazyDot rest = None"
    by (simp add: matchUrl_HTTP)
  then have "lazyDot (stripUrls rest) = None"
    by (rule lazyDot_stripUrls)
  moreover have "c # stripUrls cs = HTTP @ stripUrls rest"
    using c cs by (simp add: HTTP_chars stripUrls_ttp)
  ultimately show ?thesis
    by (simp add: matchUrl_HTTP)
qed

lemma noUrl_stripUrls: "noUrl (stripUrls s)"
proof (induction s rule: stripUrls.induct)
  case 1
  show ?case by simp
next
  case (2 c cs)
  show ?case
  proof (cases "matchUrl (c # cs)")
    case None
    with 2(1) [OF None] matchUrl_stripUrls [OF None] show ?thesis
      by (simp add: stripUrls_None)
  next
    case (Some r)
    with 2(2) [OF Some] show ?thesis
      by (simp add: stripUrls_Some)
  qed
qed

subsection \<open>Collapsing spaces keeps a string free of matches\<close>

lemma collapseSpaces_plain:
  "\<forall>c\<in>set w. \<not> isSpace c \<Longrightarrow> collapseSpaces (w @ rest) = w @ collapseSpaces rest"
  by (induction w) simp_all

lemma collapseSpaces_prefix:
  "prefix w (collapseSpaces s) \<Longrightarrow> \<forall>c\<in>set w. \<not> isSpace c \<Longrightarrow> prefix w s"
proof (induction s arbitrary: w rule: collapseSpaces.induct)
  case 1
  then show ?case by simp
next
  case (2 c cs)
  show ?case
  proof (cases w)
    case Nil
    then show ?thesis by simp
  next
    case (Cons x w')
    with 2(3,4) have c: "\<not> isSpace c" "x = c" "prefix w' (collapseSpaces cs)"
      by (auto simp: isSpace_def split: if_splits)
    moreover from 2(4) Cons have "\<forall>c\<in>set w'. \<not> isSpace c"
      by simp
    ultimately show ?thesis
      using 2(2) Cons by simp
  qed
qed

lemma lazyDot_collapseSpaces: "lazyDot s = None \<Longrightarrow> lazyDot (collapseSpaces s) = None"
  by (induction s rule: collapseSpaces.induct) (auto split: if_splits)

lemma matchUrl_collapseSpaces:
  assumes "matchUrl s = None"
  shows "matchUrl (collapseSpaces s) = None"
proof (cases "prefix HTTP (collapseSpaces s)")
  case False
  then show ?thesis by (rule matchUrl_not_HTTP)
next
  case True
  have plain: "\<forall>c\<in>set HTTP. \<not> isSpace c"
    by (simp add: HTTP_plain)
  from collapseSpaces_prefix [OF True plain] obtain rest where s: "s = HTTP @ rest"
    by (auto simp: prefix_def)
  with assms have "lazyDot rest = None"
    by (simp add: matchUrl_HTTP)
  then have "lazyDot (collapseSpaces rest) = None"
    by (rule lazyDot_collapseSpaces)
  then show ?thesis
    unfolding s collapseSpaces_plain [OF plain] matchUrl_HTTP .
qed

lemma noUrl_collapseSpaces: "noUrl t \<Longrightarrow> noUrl (collapseSpaces t)"
proof (induction t rule: collapseSpaces.induct)
  case 1
  show ?case by simp
next
  case (2 c cs)
  show ?case
  proof (cases "isSpace c")
    case True
    from 2(3) have "noUrl (dropWhile isSpace cs)"
      by (simp add: noUrl_dropWhile)
    with 2(1) [OF True] True show ?thesis
      by (simp add: matchUrl_space isSpace_SP)
  next
    case False
    from 2(3) have "matchUrl (collapseSpaces (c # cs)) = None"
      by (intro matchUrl_collapseSpaces) simp
    moreover from 2(3) have "noUrl cs"
      by simp
    ultimately show ?thesis
      using 2(2) [OF False] False by simp
  qed
qed

subsection \<open>Stripping the ends keeps a string free of matches\<close>

lemma lazyDot_spaces:
  "lazyDot y = Some r \<Longrightarrow> \<forall>c\<in>set sp. isSpace c \<Longrightarrow> lazyDot (y @ sp) = Some (r @ sp)"
proof (induction y)
  case Nil
  then show ?case by (cases sp) simp_all
next
  case (Cons c y)
  then show ?case by (auto split: if_splits)
qed

lemma matchUrl_spaces:
  "matchUrl x = Some r \<Longrightarrow> \<forall>c\<in>set sp. isSpace c \<Longrightarrow> matchUrl (x @ sp) = Some (r @ sp)"
  by (auto simp: matchUrl_Some dest: lazyDot_spaces)

lemma noUrl_spaces: "noUrl (a @ sp) \<Longrightarrow> \<forall>c\<in>set sp. isSpace c \<Longrightarrow> noUrl a"
proof (induction a)
  case Nil
  show ?case by simp
next
  case (Cons c a)
  have "matchUrl (c # a) = None"
  proof (cases "matchUrl (c # a)")
    case None
    then show ?thesis .
  next
    case (Some r)
    from matchUrl_spaces [OF Some Cons(3)] Cons(2) show ?thesis
      by simp
  qed
  with Cons show ?case by simp
qed

lemma strip_trailing:
  "t = rev (dropWhile isSpace (rev t)) @ rev (takeWhile isSpace (rev t))"
  by (metis rev_append rev_rev_ident takeWhile_dropWhile_id)

lemma stripEnds_decompose:
  "\<exists>sp. dropWhile isSpace t = stripEnds t @ sp \<and> (\<forall>c\<in>set sp. isSpace c)"
proof -
  have "dropWhile isSpace t = stripEnds t @ rev (takeWhile isSpace (rev (dropWhile isSpace t)))"
    unfolding stripEnds_def by (rule strip_trailing)
  moreover have "\<forall>c\<in>set (rev (takeWhile isSpace (rev (dropWhile isSpace t)))). isSpace c"
    by (auto dest: set_takeWhileD)
  ultimately show ?thesis by blast
qed

lemma noUrl_stripEnds: "noUrl t \<Longrightarrow> noUrl (stripEnds t)"
proof -
  assume "noUrl t"
  then have "noUrl (dropWhile isSpace t)"
    by (rule noUrl_dropWhile)
  with stripEnds_decompose [of t] show ?thesis
    by (auto dest: noUrl_spaces)
qed

subsection \<open>Strings without a run of spaces and without a space at either end\<close>

lemma noRun_tl: "noRun (c # t) \<Longrightarrow> noRun t"
  by (cases t) simp_all

lemma noRun_plain: "\<not> isSpace c \<Longrightarrow> noRun (c # t) = noRun t"
  by (cases t) simp_all

lemma noRun_space: "noRun (c # t) \<Longrightarrow> isSpace c \<Longrightarrow> dropWhile isSpace t = t"
  by (cases t) simp_all

lemma noRun_collapseSpaces: "noRun (collapseSpaces s)"
proof (induction s rule: collapseSpaces.induct)
  case 1
  show ?case by simp
next
  case (2 c cs)
  show ?case
  proof (cases "isSpace c")
    case False
    with 2(2) show ?thesis by (simp add: noRun_plain)
  next
    case True
    show ?thesis
    proof (cases "dropWhile isSpace cs")
      case Nil
      from True have "collapseSpaces (c # cs) = SP # collapseSpaces (dropWhile isSpace cs)"
        by simp
      then show ?thesis
        unfolding Nil by simp
    next
      case (Cons x xs)
      then have "\<not> isSpace x"
        by (metis hd_dropWhile list.distinct(1) list.sel(1))
      with 2(1) [OF True] True Cons show ?thesis
        by simp
    qed
  qed
qed

lemma collapseSpaces_id: "noRun t \<Longrightarrow> collapseSpaces t = t"
proof (induction t rule: collapseSpaces.induct)
  case 1
  show ?case by simp
next
  case (2 c cs)
  show ?case
  proof (cases "isSpace c")
    case False
    with 2(2,3) show ?thesis by (simp add: noRun_plain)
  next
    case True
    from noRun_space [OF 2(3) True] have d: "dropWhile isSpace cs = cs" .
    from 2(3) have "noRun cs" by (rule noRun_tl)
    with 2(1) [OF True] d True show ?thesis
      by (simp add: isSpace_def)
  qed
qed

lemma noRun_append_left: "noRun (a @ b) \<Longrightarrow> noRun a"
  by (induction a rule: noRun.induct) (auto dest: noRun_tl)

lemma noRun_append_right: "noRun (a @ b) \<Longrightarrow> noRun b"
  by (induction a) (auto dest: noRun_tl)

lemma noRun_stripEnds: "noRun t \<Longrightarrow> noRun (stripEnds t)"
proof -
  assume "noRun t"
  then have "noRun (takeWhile isSpace t @ dropWhile isSpace t)"
    by simp
  then have "noRun (dropWhile isSpace t)"
    by (rule noRun_append_right)
  with stripEnds_decompose [of t] show ?thesis
    by (auto dest: noRun_append_left)
qed

lemma trimmed_stripEnds: "trimmed (stripEnds s)"
proof (cases "stripEnds s = []")
  case True
  then show ?thesis by (simp add: trimmed_def)
next
  case False
  let ?d = "dropWhile isSpace s"
  let ?e = "dropWhile isSpace (rev ?d)"
  from False have e: "?e \<noteq> []"
    by (simp add: stripEnds_def)
  have d: "?d \<noteq> []"
  proof
    assume "?d = []"
    then have "?e = []" by (simp only: rev.simps dropWhile.simps)
    with e show False ..
  qed
  have "\<not> isSpace (hd ?e)"
    using e by (rule hd_dropWhile)
  then have l: "\<not> isSpace (last (stripEnds s))"
    using e by (simp add: stripEnds_def last_rev)
  have "suffix ?e (rev ?d)"
    by (rule suffix_dropWhile)
  then obtain p where "rev ?d = p @ ?e"
    by (auto simp: suffix_def)
  then have "?d = rev ?e @ rev p"
    by (metis rev_append rev_rev_ident)
  then have "hd ?d = hd (rev ?e)"
    using e by (metis hd_append2 rev_is_Nil_conv)
  moreover have "\<not> isSpace (hd ?d)"
    using d by (rule hd_dropWhile)
  ultimately have "\<not> isSpace (hd (stripEnds s))"
    by (simp add: stripEnds_def)
  with l show ?thesis
    by (simp add: trimmed_def)
qed

lemma stripEnds_id: "trimmed t \<Longrightarrow> stripEnds t = t"
proof (cases "t = []")
  case True
  then show ?thesis by (simp add: stripEnds_def)
next
  case False
  assume "trimmed t"
  with False have h: "\<not> isSpace (hd t)" and l: "\<not> isSpace (last t)"
    by (simp_all add: trimmed_def)
  from h False have "dropWhile isSpace t = t"
    by (cases t) simp_all
  moreover from l False have "dropWhile isSpace (rev t) = rev t"
    by (cases "rev t") (simp_all add: last_rev [symmetric] hd_rev)
  ultimately show ?thesis
    by (simp add: stripEnds_def)
qed

subsection \<open>A second and a third pass\<close>

lemma normalizePage_noUrl: "noUrl (normalizePage s)"
  unfolding normalizePage_def by (rule noUrl_stripUrls)

lemma normal_fixed:
  assumes "noRun t" "trimmed t" "\<forall>c\<in>set t. \<not> isCrLfTab c" "noUrl t"
  shows "normalizePage t = t"
  unfolding normalizePage_def collapseSpaces_id [OF assms(1)] stripEnds_id [OF assms(2)]
    removeCrLfTab_id [OF assms(3)] noUrl_stripUrls_id [OF assms(4)] ..

lemma spaces_normal:
  assumes "\<forall>c\<in>set u. \<not> isCrLfTab c" "noUrl u"
  shows "normalizePage (stripEnds (collapseSpaces u)) = stripEnds (collapseSpaces u)"
    and "normalizePage u = stripEnds (collapseSpaces u)"
proof -
  let ?w = "stripEnds (collapseSpaces u)"
  have plain: "\<forall>c\<in>set ?w. \<not> isCrLfTab c"
    using assms(1) set_stripEnds [of "collapseSpaces u"] set_collapseSpaces [of u] by blast
  have url: "noUrl ?w"
    using assms(2) by (intro noUrl_stripEnds noUrl_collapseSpaces)
  have "noRun ?w"
    by (intro noRun_stripEnds noRun_collapseSpaces)
  then show "normalizePage ?w = ?w"
    using trimmed_stripEnds plain url by (rule normal_fixed)
  show "normalizePage u = ?w"
    unfolding normalizePage_def removeCrLfTab_id [OF plain] noUrl_stripUrls_id [OF url] ..
qed

lemmas url_defs = page_defs char_defs

text \<open>
  Claim C5 says that normalizing a normalized page changes nothing. Removing a URL between
  two words leaves the two spaces around it side by side, and the second pass collapses
  them.
\<close>

theorem normalizePage_idempotent_counterexample:
  "normalizePage (js ''see http://x.y now'') = js ''see  now'' \<and>
   normalizePage (js ''see  now'') = js ''see now'' \<and>
   normalizePage (normalizePage (js ''see http://x.y now'')) \<noteq> normalizePage (js ''see http://x.y now'')"
proof -
  have one: "normalizePage (js ''see http://x.y now'') = js ''see  now''"
    by (simp add: url_defs)
  have two: "normalizePage (js ''see  now'') = js ''see now''"
    by (simp add: url_defs)
  have "js ''see now'' \<noteq> js ''see  now''"
    by (simp add: js_def)
  with one two show ?thesis
    by simp
qed

text \<open>
  Claim C5, amended. Normalizing a normalized page only collapses the runs of spaces and
  strips the spaces at the ends that the removal of line breaks, tabs and URLs left
  behind; the result of the second pass is a fixed point; and normalization is idempotent
  on every page that has no carriage return, line feed or tab and on which the URL
  pattern matches nowhere (so on every page without \<open>http\<close>).
\<close>

theorem normalizePage_twice:
  "normalizePage (normalizePage s) = stripEnds (collapseSpaces (normalizePage s)) \<and>
   normalizePage (normalizePage (normalizePage s)) = normalizePage (normalizePage s) \<and>
   (list_all (\<lambda>c. \<not> isCrLfTab c) s \<and> noUrl s \<longrightarrow>
      normalizePage (normalizePage s) = normalizePage s)"
proof (intro conjI impI)
  have plain: "\<forall>c\<in>set (normalizePage s). \<not> isCrLfTab c"
    using normalizePage_plain by blast
  show two: "normalizePage (normalizePage s) = stripEnds (collapseSpaces (normalizePage s))"
    using plain normalizePage_noUrl by (rule spaces_normal(2))
  show "normalizePage (normalizePage (normalizePage s)) = normalizePage (normalizePage s)"
    unfolding two using plain normalizePage_noUrl by (rule spaces_normal(1))
next
  assume "list_all (\<lambda>c. \<not> isCrLfTab c) s \<and> noUrl s"
  then have a: "\<forall>c\<in>set s. \<not> isCrLfTab c" "noUrl s"
    by (simp_all add: list_all_iff)
  show "normalizePage (normalizePage s) = normalizePage s"
    unfolding spaces_normal(2) [OF a] using a by (rule spaces_normal(1))
qed

theorem normalizePage_twice_witness:
  "list_all (\<lambda>c. \<not> isCrLfTab c) (js ''  word   list  '') \<and> noUrl (js ''  word   list  '') \<and>
   normalizePage (js ''  word   list  '') = js ''word list'' \<and>
   normalizePage (normalizePage (js ''  word   list  '')) = normalizePage (js ''  word   list  '')"
proof -
  have h: "list_all (\<lambda>c. \<not> isCrLfTab c) (js ''  word   list  '') \<and> noUrl (js ''  word   list  '')"
    by (simp add: url_defs)
  have v: "normalizePage (js ''  word   list  '') = js ''word list''"
    by (simp add: url_defs)
  from normalizePage_twice [of "js ''  word   list  ''"] h v show ?thesis
    by blast
qed

section \<open>The loop of getTextPreview\<close>

lemma assembled_empty: "assembled client fp a a = []"
  by (simp add: assembled_def)

lemma assembled_first:
  "a < b \<Longrightarrow> assembled client fp a b = pageText client fp a @ assembled client fp (Suc a) b"
  by (simp add: assembled_def upt_conv_Cons)

lemma appended_step:
  assumes "a < b"
  shows "appended client fp acc a b \<longleftrightarrow>
     \<not> isl (client (pageKey fp a)) \<and> length acc < MAX_TEXT_LENGTH \<and>
     appended client fp (acc @ pageText client fp a) (Suc a) b"
  by (auto simp: appended_def list_all_iff assembled_empty assembled_first upt_conv_Cons [OF assms])

lemmas previewLoop_induct = previewLoop.raw_induct [rotated 1, consumes 1, case_names step]

lemma previewLoop_sound:
  assumes "previewLoop client fp page acc = Some r"
  shows "\<exists>n\<ge>page. appended client fp acc page n \<and>
           leaves client fp n (acc @ assembled client fp page n) r"
  using assms
proof (induction rule: previewLoop_induct)
  case (step loop client fp page acc r)
  show ?case
  proof (cases "length acc < MAX_TEXT_LENGTH")
    case False
    with step(2) have "r = Inr acc" by simp
    with False have "appended client fp acc page page \<and>
        leaves client fp page (acc @ assembled client fp page page) r"
      by (simp add: appended_def leaves_def assembled_empty)
    then show ?thesis by blast
  next
    case short: True
    show ?thesis
    proof (cases "client (pageKey fp page)")
      case (Inl e)
      with short step(2) have "r = (if isNoSuchKey e then Inr acc else Inl e)"
        by (simp split: if_splits)
      with short Inl have "appended client fp acc page page \<and>
          leaves client fp page (acc @ assembled client fp page page) r"
        by (simp add: appended_def leaves_def assembled_empty)
      then show ?thesis by blast
    next
      case (Inr str)
      with short step(2) have "loop client fp (page + 1) (acc @ normalizePage str) = Some r"
        by simp
      from step(1) [OF this] obtain n where n: "Suc page \<le> n"
        "appended client fp (acc @ normalizePage str) (Suc page) n"
        "leaves client fp n ((acc @ normalizePage str) @ assembled client fp (Suc page) n) r"
        by auto
      have t: "pageText client fp page = normalizePage str"
        using Inr by (simp add: pageText_def)
      from n(1) have lt: "page < n" by simp
      have "appended client fp acc page n"
        using n(2) short Inr by (simp add: appended_step [OF lt] t)
      moreover have "leaves client fp n (acc @ assembled client fp page n) r"
        using n(3) by (simp add: assembled_first [OF lt] t)
      ultimately show ?thesis using lt by (intro exI [of _ n]) simp
    qed
  qed
qed

lemma previewLoop_complete:
  assumes "page \<le> n" "appended client fp acc page n"
    "leaves client fp n (acc @ assembled client fp page n) r"
  shows "previewLoop client fp page acc = Some r"
  using assms
proof (induction "n - page" arbitrary: page acc)
  case 0
  then have "n = page" by simp
  with 0(4) show ?case
    by (subst previewLoop.simps) (auto simp: leaves_def assembled_empty split: if_splits sum.splits)
next
  case (Suc k)
  then have lt: "page < n" by simp
  from Suc(4) have a: "\<not> isl (client (pageKey fp page))" "length acc < MAX_TEXT_LENGTH"
    "appended client fp (acc @ pageText client fp page) (Suc page) n"
    by (simp_all add: appended_step [OF lt])
  from a(1) obtain str where str: "client (pageKey fp page) = Inr str"
    by (cases "client (pageKey fp page)") auto
  then have t: "pageText client fp page = normalizePage str"
    by (simp add: pageText_def)
  have "previewLoop client fp (Suc page) (acc @ normalizePage str) = Some r"
  proof (rule Suc(1))
    show "k = n - Suc page" using Suc(2) by simp
    show "Suc page \<le> n" using lt by simp
    show "appended client fp (acc @ normalizePage str) (Suc page) n" using a(3) t by simp
    show "leaves client fp n ((acc @ normalizePage str) @ assembled client fp (Suc page) n) r"
      using Suc(5) by (simp add: assembled_first [OF lt] t)
  qed
  with a(2) str show ?case
    by (subst previewLoop.simps) simp
qed


lemma leaves_Inr: "leaves client fp n final (Inr t) \<Longrightarrow> t = final"
  by (auto simp: leaves_def split: if_splits sum.splits)

lemma leaves_short:
  "leaves client fp n final (Inr t) \<Longrightarrow> length final < MAX_TEXT_LENGTH \<Longrightarrow>
     \<exists>e. client (pageKey fp n) = Inl e \<and> isNoSuchKey e"
  by (auto simp: leaves_def split: if_splits sum.splits)

lemma getTextPreview_Inr:
  assumes "getTextPreview client fp = Some (Inr s)"
  shows "\<exists>n\<ge>1. appended client fp [] 1 n \<and>
     leaves client fp n (assembled client fp 1 n) (Inr (assembled client fp 1 n)) \<and>
     s = take MAX_TEXT_LENGTH (assembled client fp 1 n)"
proof -
  from assms obtain t where t: "previewLoop client fp 1 [] = Some (Inr t)"
    and s: "s = take MAX_TEXT_LENGTH t"
    by (auto simp: getTextPreview_def split: option.splits sum.splits)
  from previewLoop_sound [OF t] obtain n where n: "1 \<le> n" "appended client fp [] 1 n"
    "leaves client fp n (assembled client fp 1 n) (Inr t)"
    by auto
  from leaves_Inr [OF n(3)] have "t = assembled client fp 1 n" .
  with n s show ?thesis by blast
qed

lemma getTextPreview_loop:
  assumes "getTextPreview client fp = Some (Inr s)"
  shows "\<exists>n\<ge>1. appended client fp [] 1 n \<and>
     previewLoop client fp 1 [] = Some (Inr (assembled client fp 1 n)) \<and>
     s = take MAX_TEXT_LENGTH (assembled client fp 1 n)"
proof -
  from assms obtain t where t: "previewLoop client fp 1 [] = Some (Inr t)"
    and s: "s = take MAX_TEXT_LENGTH t"
    by (auto simp: getTextPreview_def split: option.splits sum.splits)
  from previewLoop_sound [OF t] obtain n where n: "1 \<le> n" "appended client fp [] 1 n"
    "leaves client fp n (assembled client fp 1 n) (Inr t)"
    by auto
  from leaves_Inr [OF n(3)] have "t = assembled client fp 1 n" .
  with n t s show ?thesis by blast
qed

lemma previewLoop_bound_reached:
  assumes "1 \<le> m" "appended client fp [] 1 m" "MAX_TEXT_LENGTH \<le> length (assembled client fp 1 m)"
  shows "previewLoop client fp 1 [] = Some (Inr (assembled client fp 1 m))"
proof (rule previewLoop_complete [OF assms(1)])
  show "appended client fp [] 1 m"
    by (rule assms(2))
  show "leaves client fp m ([] @ assembled client fp 1 m) (Inr (assembled client fp 1 m))"
    using assms(3) by (simp add: leaves_def)
qed

lemma previewA: "getTextPreview storageA (JStr (js ''f1'')) = Some (Inr (js ''HelloWorld''))"
  by (simp add: preview_defs storageA_def page_defs char_defs)

text \<open>
  Claim C1. Whatever the storage answers and whatever the fingerprint is, a preview returned
  by \<open>getTextPreview\<close> has at most 24000 characters. The loop leaves with exactly the text
  of the pages \<open>1\<close> up to \<open>n - 1\<close>, each of which was appended to an accumulator still
  shorter than the bound, and the preview is that text cut to the bound. Conversely, as
  soon as the text of the pages appended so reaches the bound, the loop leaves with it
  and the preview is returned, whatever the storage would answer for the next page:
  nothing is appended once the bound is reached.
\<close>

theorem getTextPreview_bounded:
  "(getTextPreview client fileFingerprint = Some (Inr s) \<longrightarrow>
      length s \<le> 24000 \<and>
      (\<exists>n\<ge>1. appended client fileFingerprint [] 1 n \<and>
         previewLoop client fileFingerprint 1 [] = Some (Inr (assembled client fileFingerprint 1 n)) \<and>
         s = take 24000 (assembled client fileFingerprint 1 n))) \<and>
   (1 \<le> m \<and> appended client fileFingerprint [] 1 m \<and>
      24000 \<le> length (assembled client fileFingerprint 1 m) \<longrightarrow>
      previewLoop client fileFingerprint 1 [] = Some (Inr (assembled client fileFingerprint 1 m)) \<and>
      getTextPreview client fileFingerprint =
        Some (Inr (take 24000 (assembled client fileFingerprint 1 m))))"
proof (intro conjI impI)
  assume a: "getTextPreview client fileFingerprint = Some (Inr s)"
  from getTextPreview_loop [OF a] obtain n where n: "1 \<le> n"
    "appended client fileFingerprint [] 1 n"
    "previewLoop client fileFingerprint 1 [] = Some (Inr (assembled client fileFingerprint 1 n))"
    "s = take 24000 (assembled client fileFingerprint 1 n)"
    by (auto simp: MAX_TEXT_LENGTH_def)
  from n(4) show "length s \<le> 24000"
    by simp
  from n show "\<exists>n\<ge>1. appended client fileFingerprint [] 1 n \<and>
         previewLoop client fileFingerprint 1 [] = Some (Inr (assembled client fileFingerprint 1 n)) \<and>
         s = take 24000 (assembled client fileFingerprint 1 n)"
    by blast
next
  assume b: "1 \<le> m \<and> appended client fileFingerprint [] 1 m \<and>
      24000 \<le> length (assembled client fileFingerprint 1 m)"
  then show loop: "previewLoop client fileFingerprint 1 [] =
      Some (Inr (assembled client fileFingerprint 1 m))"
    by (intro previewLoop_bound_reached) (simp_all add: MAX_TEXT_LENGTH_def)
  then show "getTextPreview client fileFingerprint =
        Some (Inr (take 24000 (assembled client fileFingerprint 1 m)))"
    by (simp add: getTextPreview_def MAX_TEXT_LENGTH_def)
qed

text \<open>
  Three documents for the statement above: the two short pages of scenario A; a first
  page of 24001 letters, which is appended whole and then cut to the bound; and that
  page on a storage that refuses the second page, which does not affect the preview.
\<close>

lemma noRun_no_space: "\<forall>c\<in>set t. \<not> isSpace c \<Longrightarrow> noRun t"
  by (induction t) (simp_all add: noRun_plain)

lemma noUrl_no_h: "\<forall>c\<in>set t. c \<noteq> 104 \<Longrightarrow> noUrl t"
  by (induction t) (simp_all add: matchUrl_other)

lemma normalizePage_letters: "normalizePage (replicate n 97) = replicate n 97"
proof (rule normal_fixed)
  show "noRun (replicate n 97)"
    by (rule noRun_no_space) (simp add: char_defs)
  show "trimmed (replicate n 97)"
    by (cases n) (simp_all add: trimmed_def char_defs)
  show "\<forall>c\<in>set (replicate n 97). \<not> isCrLfTab c"
    by (simp add: char_defs)
  show "noUrl (replicate n 97)"
    by (rule noUrl_no_h) simp
qed

lemma previewLong:
  "getTextPreview storageLong (JStr (js ''f1'')) = Some (Inr (replicate 24000 (of_char CHR ''a'')))"
proof -
  have key: "pageKey (JStr (js ''f1'')) (Suc 0) = js ''TextPreview/f1/1.txt''"
    by (simp add: pageKey_def js_def digits.simps)
  have "previewLoop storageLong (JStr (js ''f1'')) 1 [] = Some (Inr (replicate 24001 97))"
    by (subst previewLoop.simps, simp add: key storageLong_def MAX_TEXT_LENGTH_def
        normalizePage_letters, subst previewLoop.simps, simp add: MAX_TEXT_LENGTH_def)
  then show ?thesis
    by (simp add: getTextPreview_def MAX_TEXT_LENGTH_def)
qed

lemma longDenied:
  "appended storageLongDenied (JStr (js ''f1'')) [] 1 2"
  "assembled storageLongDenied (JStr (js ''f1'')) 1 2 = replicate 24001 (of_char CHR ''a'')"
  "storageLongDenied (pageKey (JStr (js ''f1'')) 2) = Inl (S3Error (js ''AccessDenied''))"
proof -
  have key: "pageKey (JStr (js ''f1'')) (Suc 0) = js ''TextPreview/f1/1.txt''"
    "pageKey (JStr (js ''f1'')) 2 = js ''TextPreview/f1/2.txt''"
    by (simp_all add: pageKey_def js_def digits.simps)
  have one: "storageLongDenied (js ''TextPreview/f1/1.txt'') = Inr (replicate 24001 97)"
    by (simp add: storageLongDenied_def)
  show "appended storageLongDenied (JStr (js ''f1'')) [] 1 2"
    by (simp add: appended_def assembled_def upt_rec key one MAX_TEXT_LENGTH_def)
  show "assembled storageLongDenied (JStr (js ''f1'')) 1 2 = replicate 24001 (of_char CHR ''a'')"
    by (simp add: assembled_def upt_rec pageText_def key one normalizePage_letters)
  show "storageLongDenied (pageKey (JStr (js ''f1'')) 2) = Inl (S3Error (js ''AccessDenied''))"
    by (simp add: pageKey_def js_def digits.simps storageLongDenied_def)
qed

theorem getTextPreview_bounded_witness:
  "getTextPreview storageA (JStr (js ''f1'')) = Some (Inr (js ''HelloWorld'')) \<and>
   length (js ''HelloWorld'') \<le> 24000 \<and>
   (\<exists>n\<ge>1. appended storageA (JStr (js ''f1'')) [] 1 n \<and>
      previewLoop storageA (JStr (js ''f1'')) 1 [] =
        Some (Inr (assembled storageA (JStr (js ''f1'')) 1 n)) \<and>
      js ''HelloWorld'' = take 24000 (assembled storageA (JStr (js ''f1'')) 1 n)) \<and>
   getTextPreview storageLong (JStr (js ''f1'')) = Some (Inr (replicate 24000 (of_char CHR ''a''))) \<and>
   length (replicate 24000 (of_char CHR ''a'' :: jschar)) \<le> 24000 \<and>
   1 \<le> (2::nat) \<and>
   appended storageLongDenied (JStr (js ''f1'')) [] 1 2 \<and>
   24000 \<le> length (assembled storageLongDenied (JStr (js ''f1'')) 1 2) \<and>
   storageLongDenied (pageKey (JStr (js ''f1'')) 2) = Inl (S3Error (js ''AccessDenied'')) \<and>
   previewLoop storageLongDenied (JStr (js ''f1'')) 1 [] =
     Some (Inr (replicate 24001 (of_char CHR ''a''))) \<and>
   getTextPreview storageLongDenied (JStr (js ''f1'')) =
     Some (Inr (replicate 24000 (of_char CHR ''a'')))"
proof -
  from getTextPreview_bounded [where client = storageA and fileFingerprint = "JStr (js ''f1'')"
      and s = "js ''HelloWorld''"] previewA
  have a: "length (js ''HelloWorld'') \<le> 24000 \<and>
   (\<exists>n\<ge>1. appended storageA (JStr (js ''f1'')) [] 1 n \<and>
      previewLoop storageA (JStr (js ''f1'')) 1 [] =
        Some (Inr (assembled storageA (JStr (js ''f1'')) 1 n)) \<and>
      js ''HelloWorld'' = take 24000 (assembled storageA (JStr (js ''f1'')) 1 n))"
    by blast
  from getTextPreview_bounded [where client = storageLong and fileFingerprint = "JStr (js ''f1'')"
      and s = "replicate 24000 (of_char CHR ''a'')"] previewLong
  have l: "length (replicate 24000 (of_char CHR ''a'' :: jschar)) \<le> 24000"
    by blast
  have h: "1 \<le> (2::nat)"
    "24000 \<le> length (assembled storageLongDenied (JStr (js ''f1'')) 1 2)"
    unfolding longDenied(2) by simp_all
  from getTextPreview_bounded [where client = storageLongDenied
      and fileFingerprint = "JStr (js ''f1'')" and m = 2] h longDenied(1)
  have "previewLoop storageLongDenied (JStr (js ''f1'')) 1 [] =
      Some (Inr (assembled storageLongDenied (JStr (js ''f1'')) 1 2)) \<and>
    getTextPreview storageLongDenied (JStr (js ''f1'')) =
      Some (Inr (take 24000 (assembled storageLongDenied (JStr (js ''f1'')) 1 2)))"
    by blast
  then have d: "previewLoop storageLongDenied (JStr (js ''f1'')) 1 [] =
      Some (Inr (replicate 24001 (of_char CHR ''a''))) \<and>
    getTextPreview storageLongDenied (JStr (js ''f1'')) =
      Some (Inr (replicate 24000 (of_char CHR ''a'')))"
    unfolding longDenied(2) by simp
  from previewA a previewLong l h longDenied(1,3) d show ?thesis
    by blast
qed

text \<open>
  Claim C6. A returned preview shorter than 24000 characters means that the storage
  answered the last request, for page \<open>n\<close>, with the error code \<open>NoSuchKey\<close>, after all
  pages before \<open>n\<close> were fetched and appended, and the preview is their text. And when the
  loop reaches a page \<open>m\<close> whose request fails with any other error, \<open>getTextPreview\<close>
  fails with that error instead of returning a preview.
\<close>

theorem getTextPreview_short_stop:
  "(getTextPreview client fileFingerprint = Some (Inr s) \<and> length s < 24000 \<longrightarrow>
      (\<exists>n\<ge>1. \<exists>e. client (pageKey fileFingerprint n) = Inl e \<and> isNoSuchKey e \<and>
         appended client fileFingerprint [] 1 n \<and> s = assembled client fileFingerprint 1 n))
   \<and> (1 \<le> m \<and> appended client fileFingerprint [] 1 m \<and>
        length (assembled client fileFingerprint 1 m) < 24000 \<and>
        client (pageKey fileFingerprint m) = Inl e' \<and> \<not> isNoSuchKey e' \<longrightarrow>
        getTextPreview client fileFingerprint = Some (Inl e'))"
proof (intro conjI impI)
  assume a: "getTextPreview client fileFingerprint = Some (Inr s) \<and> length s < 24000"
  from getTextPreview_Inr [of client fileFingerprint s] a obtain n where n: "1 \<le> n"
    "appended client fileFingerprint [] 1 n"
    "leaves client fileFingerprint n (assembled client fileFingerprint 1 n)
       (Inr (assembled client fileFingerprint 1 n))"
    "s = take MAX_TEXT_LENGTH (assembled client fileFingerprint 1 n)"
    by auto
  from n(4) a have short: "length (assembled client fileFingerprint 1 n) < MAX_TEXT_LENGTH"
    by (auto simp: MAX_TEXT_LENGTH_def)
  with n(4) have "s = assembled client fileFingerprint 1 n"
    by simp
  with leaves_short [OF n(3) short] n(1,2)
  show "\<exists>n\<ge>1. \<exists>e. client (pageKey fileFingerprint n) = Inl e \<and> isNoSuchKey e \<and>
         appended client fileFingerprint [] 1 n \<and> s = assembled client fileFingerprint 1 n"
    by blast
next
  assume b: "1 \<le> m \<and> appended client fileFingerprint [] 1 m \<and>
        length (assembled client fileFingerprint 1 m) < 24000 \<and>
        client (pageKey fileFingerprint m) = Inl e' \<and> \<not> isNoSuchKey e'"
  then have "leaves client fileFingerprint m ([] @ assembled client fileFingerprint 1 m) (Inl e')"
    by (simp add: leaves_def MAX_TEXT_LENGTH_def)
  with b have "previewLoop client fileFingerprint 1 [] = Some (Inl e')"
    by (intro previewLoop_complete [of 1 m]) simp_all
  then show "getTextPreview client fileFingerprint = Some (Inl e')"
    by (simp add: getTextPreview_def)
qed

theorem getTextPreview_short_stop_witness:
  "getTextPreview storageA (JStr (js ''f1'')) = Some (Inr (js ''HelloWorld'')) \<and>
   length (js ''HelloWorld'') < 24000 \<and>
   (\<exists>n\<ge>1. \<exists>e. storageA (pageKey (JStr (js ''f1'')) n) = Inl e \<and> isNoSuchKey e \<and>
      appended storageA (JStr (js ''f1'')) [] 1 n \<and>
      js ''HelloWorld'' = assembled storageA (JStr (js ''f1'')) 1 n) \<and>
   appended storageDenied (JStr (js ''f1'')) [] 1 2 \<and>
   length (assembled storageDenied (JStr (js ''f1'')) 1 2) < 24000 \<and>
   storageDenied (pageKey (JStr (js ''f1'')) 2) = Inl (S3Error (js ''AccessDenied'')) \<and>
   \<not> isNoSuchKey (S3Error (js ''AccessDenied'')) \<and>
   getTextPreview storageDenied (JStr (js ''f1'')) = Some (Inl (S3Error (js ''AccessDenied'')))"
proof -
  have short: "length (js ''HelloWorld'') < 24000"
    by (simp add: js_def)
  have denied: "appended storageDenied (JStr (js ''f1'')) [] 1 2"
    "length (assembled storageDenied (JStr (js ''f1'')) 1 2) < 24000"
    "storageDenied (pageKey (JStr (js ''f1'')) 2) = Inl (S3Error (js ''AccessDenied''))"
    "\<not> isNoSuchKey (S3Error (js ''AccessDenied''))"
    by (simp_all add: appended_def assembled_def pageText_def storageDenied_def page_defs char_defs
        MAX_TEXT_LENGTH_def upt_rec)
  from getTextPreview_short_stop [where client = storageA and fileFingerprint = "JStr (js ''f1'')"
      and s = "js ''HelloWorld''"] previewA short
  have one: "\<exists>n\<ge>1. \<exists>e. storageA (pageKey (JStr (js ''f1'')) n) = Inl e \<and> isNoSuchKey e \<and>
      appended storageA (JStr (js ''f1'')) [] 1 n \<and>
      js ''HelloWorld'' = assembled storageA (JStr (js ''f1'')) 1 n"
    by blast
  from getTextPreview_short_stop [where client = storageDenied and fileFingerprint = "JStr (js ''f1'')"
      and m = 2 and e' = "S3Error (js ''AccessDenied'')"] denied
  have two: "getTextPreview storageDenied (JStr (js ''f1'')) = Some (Inl (S3Error (js ''AccessDenied'')))"
    by simp
  from previewA short one denied two show ?thesis
    by blast
qed

lemma previewLoop_returns:
  assumes "isl (client (pageKey fp p))" "page \<le> p"
  shows "\<exists>r. previewLoop client fp page acc = Some r"
  using assms(2)
proof (induction "p - page" arbitrary: page acc)
  case 0
  then have "page = p" by simp
  with assms(1) show ?case
    by (subst previewLoop.simps) (auto split: sum.splits)
next
  case (Suc k)
  then have "k = p - Suc page" "Suc page \<le> p" by simp_all
  from Suc(1) [OF this] show ?case
    by (subst previewLoop.simps) (auto split: sum.splits)
qed

lemma previewLoop_empty_pages:
  assumes "previewLoop client fp page acc = Some r"
    and "\<forall>p. \<exists>str. client (pageKey fp p) = Inr str \<and> normalizePage str = []"
    and "acc = []"
  shows False
  using assms
proof (induction rule: previewLoop_induct)
  case (step loop client fp page acc r)
  from step(3) obtain str where str: "client (pageKey fp page) = Inr str" "normalizePage str = []"
    by blast
  with step(2,4) have "loop client fp (page + 1) [] = Some r"
    by (simp add: MAX_TEXT_LENGTH_def)
  from step(1) [OF this step(3)] show ?case by simp
qed

text \<open>
  Claim C10. \<open>getTextPreview\<close> returns (a preview or an error) whenever the storage reports
  a missing object at some page index. The bound on the length alone does not make it
  return: on a storage where every page exists and normalizes to the empty string the
  accumulator never grows and the loop never ends.
\<close>

theorem getTextPreview_terminates:
  "(1 \<le> p \<and> client (pageKey fileFingerprint p) = Inl e \<and> isNoSuchKey e \<longrightarrow>
      (\<exists>r. getTextPreview client fileFingerprint = Some r))
   \<and> ((\<forall>q. \<exists>str. client (pageKey fileFingerprint q) = Inr str \<and> normalizePage str = []) \<longrightarrow>
        getTextPreview client fileFingerprint = None)"
proof (intro conjI impI)
  assume "1 \<le> p \<and> client (pageKey fileFingerprint p) = Inl e \<and> isNoSuchKey e"
  then have "\<exists>r. previewLoop client fileFingerprint 1 [] = Some r"
    by (intro previewLoop_returns [of client fileFingerprint p]) simp_all
  then show "\<exists>r. getTextPreview client fileFingerprint = Some r"
    by (auto simp: getTextPreview_def split: sum.splits)
next
  assume "\<forall>q. \<exists>str. client (pageKey fileFingerprint q) = Inr str \<and> normalizePage str = []"
  then have "previewLoop client fileFingerprint 1 [] = None"
    using previewLoop_empty_pages [of client fileFingerprint 1 "[]"] by (cases "previewLoop client fileFingerprint 1 []") auto
  then show "getTextPreview client fileFingerprint = None"
    by (simp add: getTextPreview_def)
qed

theorem getTextPreview_terminates_witness:
  "1 \<le> (3::nat) \<and> storageA (pageKey (JStr (js ''f1'')) 3) = Inl (S3Error (js ''NoSuchKey'')) \<and>
   isNoSuchKey (S3Error (js ''NoSuchKey'')) \<and>
   (\<exists>r. getTextPreview storageA (JStr (js ''f1'')) = Some r) \<and>
   (\<forall>q. \<exists>str. storageBlank (pageKey (JStr (js ''f1'')) q) = Inr str \<and> normalizePage str = []) \<and>
   getTextPreview storageBlank (JStr (js ''f1'')) = None"
proof -
  have missing: "storageA (pageKey (JStr (js ''f1'')) 3) = Inl (S3Error (js ''NoSuchKey''))"
    "isNoSuchKey (S3Error (js ''NoSuchKey''))"
    by (simp_all add: storageA_def page_defs)
  have blank: "\<forall>q. \<exists>str. storageBlank (pageKey (JStr (js ''f1'')) q) = Inr str \<and> normalizePage str = []"
    by (simp add: storageBlank_def normalizePage_def stripEnds_def removeCrLfTab_def js_def char_defs)
  from getTextPreview_terminates [where client = storageA and fileFingerprint = "JStr (js ''f1'')"
      and p = 3 and e = "S3Error (js ''NoSuchKey'')"] missing
  have one: "\<exists>r. getTextPreview storageA (JStr (js ''f1'')) = Some r"
    by simp
  from getTextPreview_terminates [where client = storageBlank and fileFingerprint = "JStr (js ''f1'')"] blank
  have two: "getTextPreview storageBlank (JStr (js ''f1'')) = None"
    by blast
  from missing blank one two show ?thesis
    by simp
qed

section \<open>aggregateResults\<close>

lemma getProp_pick:
  "k \<in> set pickedFields \<Longrightarrow> getProp (pick r) k = getProp r k"
  by (auto simp: pickedFields_def pick_def getProp_def)

lemma keys_pick: "keys (pick r) = pickedFields"
  by (simp add: pick_def keys_def pickedFields_def)

text \<open>
  Claim C2. For every list of records (each carries its own pair of job labels), the copy
  of a record is in \<open>sameAsCurrent\<close> exactly when its \<open>newDetectedLanguage\<close> equals its
  \<open>currentLanguage\<close>, in \<open>sameAsExpected\<close> exactly when it equals its \<open>expectedLanguage\<close>,
  and in \<open>differentResults\<close> exactly when it differs from both. Each condition reads the
  record alone.
\<close>

theorem aggregateResults_buckets:
  assumes "r \<in> set results"
  shows "(pick r \<in> set (sameAsCurrent (fst (aggregateResults results outputFolder))) \<longleftrightarrow>
            getProp r ''newDetectedLanguage'' = getProp r ''currentLanguage'') \<and>
         (pick r \<in> set (sameAsExpected (fst (aggregateResults results outputFolder))) \<longleftrightarrow>
            getProp r ''newDetectedLanguage'' = getProp r ''expectedLanguage'') \<and>
         (pick r \<in> set (differentResults (fst (aggregateResults results outputFolder))) \<longleftrightarrow>
            getProp r ''newDetectedLanguage'' \<noteq> getProp r ''currentLanguage'' \<and>
            getProp r ''newDetectedLanguage'' \<noteq> getProp r ''expectedLanguage'')"
proof -
  have p: "getProp (pick r) ''newDetectedLanguage'' = getProp r ''newDetectedLanguage''"
    "getProp (pick r) ''currentLanguage'' = getProp r ''currentLanguage''"
    "getProp (pick r) ''expectedLanguage'' = getProp r ''expectedLanguage''"
    by (simp_all add: getProp_pick pickedFields_def)
  from assms have "pick r \<in> pick ` set results"
    by simp
  with p show ?thesis
    by (auto simp: aggregateResults_def Let_def)
qed

theorem aggregateResults_buckets_witness:
  "recordA \<in> set [recordA] \<and>
   pick recordA \<notin>
     set (sameAsCurrent (fst (aggregateResults [recordA] ''out''))) \<and>
   pick recordA \<notin>
     set (sameAsExpected (fst (aggregateResults [recordA] ''out''))) \<and>
   pick recordA \<in>
     set (differentResults (fst (aggregateResults [recordA] ''out'')))"
proof -
  have h: "recordA \<in> set [recordA]"
    by simp
  have v: "getProp recordA ''newDetectedLanguage'' = JStr (js ''en'')"
    "getProp recordA ''currentLanguage'' = JStr (js ''pt'')"
    "getProp recordA ''expectedLanguage'' = JStr (js ''es'')"
    by (simp_all add: recordA_def getProp_def)
  have ne: "js ''en'' \<noteq> js ''pt''" "js ''en'' \<noteq> js ''es''"
    by (simp_all add: js_def)
  from aggregateResults_buckets [OF h, of "''out''"] h v ne show ?thesis
    by simp
qed

text \<open>
  Claim C8 says that a record in a bucket carries all nine properties of a result record.
  The bucket built from the record of scenario A holds a record that does not.
\<close>

theorem aggregateResults_full_record_counterexample:
  "\<not> list_all isResultRecord
       (differentResults (fst (aggregateResults [recordA] ''out'')))"
  by (simp add: aggregateResults_def Let_def isResultRecord_def resultRecordFields_def keys_def
      pick_def recordA_def getProp_def js_def)

text \<open>
  Claim C8, amended. Every record in a bucket of \<open>aggregateResults\<close> is the copy of a
  record of the input with exactly the six properties \<open>id\<close>, \<open>name\<close>, \<open>currentLanguage\<close>,
  \<open>expectedLanguage\<close>, \<open>newDetectedLanguage\<close>, \<open>oldDetectedLanguage\<close>, each with the value
  it has in that record; \<open>fileurl\<close>, \<open>textPreviewLength\<close> and \<open>textPreview\<close> are not copied.
\<close>

theorem aggregateResults_six_fields:
  assumes "b \<in> set (differentResults (fst (aggregateResults results outputFolder))) \<union>
               set (sameAsCurrent (fst (aggregateResults results outputFolder))) \<union>
               set (sameAsExpected (fst (aggregateResults results outputFolder)))"
  shows "keys b = pickedFields \<and>
         (\<exists>r\<in>set results. b = pick r \<and> (\<forall>k\<in>set pickedFields. getProp b k = getProp r k)) \<and>
         ''fileurl'' \<notin> set (keys b) \<and> ''textPreviewLength'' \<notin> set (keys b) \<and>
         ''textPreview'' \<notin> set (keys b)"
proof -
  from assms obtain r where r: "r \<in> set results" "b = pick r"
    by (auto simp: aggregateResults_def Let_def)
  then have "\<exists>r\<in>set results. b = pick r \<and> (\<forall>k\<in>set pickedFields. getProp b k = getProp r k)"
    using getProp_pick by blast
  moreover have "keys b = pickedFields"
    using r by (simp add: keys_pick)
  ultimately show ?thesis
    by (simp add: pickedFields_def)
qed

theorem aggregateResults_six_fields_witness:
  "pick recordA \<in>
     set (differentResults (fst (aggregateResults [recordA] ''out''))) \<union>
     set (sameAsCurrent (fst (aggregateResults [recordA] ''out''))) \<union>
     set (sameAsExpected (fst (aggregateResults [recordA] ''out''))) \<and>
   keys (pick recordA) = pickedFields \<and>
   ''textPreview'' \<notin> set (keys (pick recordA))"
proof -
  have h: "pick recordA \<in>
     set (differentResults (fst (aggregateResults [recordA] ''out''))) \<union>
     set (sameAsCurrent (fst (aggregateResults [recordA] ''out''))) \<union>
     set (sameAsExpected (fst (aggregateResults [recordA] ''out'')))"
    by (simp add: aggregateResults_def Let_def pick_def recordA_def getProp_def js_def)
  from aggregateResults_six_fields [OF h] h show ?thesis
    by blast
qed

section \<open>Scenario A\<close>

lemma fileData_es: "fileData ''es'' = Some jobEs"
  by (simp add: fileData_def jobEs_def)

lemma detectA: "detectLanguage (envFetch scenarioA) (envLangdetect scenarioA) t =
    Inr (JStr (js ''en''), JStr (js ''en''))"
  by (simp add: detectLanguage_def scenarioA_def candidateEn_def getProp_def)

lemma processA: "processFile scenarioA jobEs rowA = Some (Inr recordA)"
proof -
  have "getProp rowA ''fileurl'' = JStr (js ''f1'')"
    by (simp add: rowA_def getProp_def)
  moreover have "envClient scenarioA = storageA"
    by (simp add: scenarioA_def)
  moreover have "length (js ''HelloWorld'') = 10"
    by (simp add: js_def)
  ultimately show ?thesis
    by (simp add: processFile_def previewA detectA recordA_def rowA_def getProp_def jobEs_def)
qed

lemma resultsA: "jobResults scenarioA jobEs [rowA] = Some (Inr [recordA])"
  by (simp add: jobResults_def promiseAll_def processA)

text \<open>
  Claim C3 says that the record of scenario A has the preview \<open>"Hello World"\<close>. The
  record the job builds has the preview \<open>"HelloWorld"\<close>: the trailing space of the first
  page is stripped before the pages are joined.
\<close>

theorem scenarioA_preview_counterexample:
  "jobResults scenarioA jobEs [rowA] = Some (Inr [recordA]) \<and>
   getProp recordA ''textPreview'' = JStr (js ''HelloWorld'') \<and>
   getProp recordA ''textPreview'' \<noteq> JStr (js ''Hello World'')"
  by (simp add: resultsA recordA_def getProp_def js_def)

text \<open>
  Claim C3, amended. In scenario A the job runs to its end and writes one result record,
  with \<open>textPreview\<close> \<open>"HelloWorld"\<close> (and \<open>textPreviewLength\<close> 10), \<open>newDetectedLanguage\<close>
  \<open>"en"\<close> and \<open>oldDetectedLanguage\<close> \<open>"en"\<close>; the copy of that record is in the bucket
  \<open>differentResults\<close> and the other two buckets are empty.
\<close>

theorem scenarioA_record:
  "runJob scenarioA ''es'' =
     ([readingStretch jobEs, fetchingStretch,
       writingStretch scenarioA ''es'' jobEs [recordA]], Fulfilled) \<and>
   getProp recordA ''textPreview'' = JStr (js ''HelloWorld'') \<and>
   getProp recordA ''textPreviewLength'' = JNum 10 \<and>
   getProp recordA ''newDetectedLanguage'' = JStr (js ''en'') \<and>
   getProp recordA ''oldDetectedLanguage'' = JStr (js ''en'') \<and>
   fst (aggregateResults [recordA] (aggregatedResultsFolder jobEs)) =
     \<lparr>differentResults = [pick recordA],
      sameAsCurrent = [], sameAsExpected = []\<rparr>"
proof -
  have "envCsv scenarioA (materials jobEs) = Inr [rowA]"
    by (simp add: scenarioA_def jobEs_def)
  then have "runJob scenarioA ''es'' =
     ([readingStretch jobEs, fetchingStretch,
       writingStretch scenarioA ''es'' jobEs [recordA]], Fulfilled)"
    by (simp add: runJob_def fileData_es resultsA)
  moreover have "fst (aggregateResults [recordA] (aggregatedResultsFolder jobEs)) =
     \<lparr>differentResults = [pick recordA],
      sameAsCurrent = [], sameAsExpected = []\<rparr>"
    by (simp add: aggregateResults_def Let_def pick_def recordA_def getProp_def js_def)
  ultimately show ?thesis
    by (simp add: recordA_def getProp_def)
qed

section \<open>getSample\<close>

text \<open>
  Claim C7. Whatever array the sort with the random comparator leaves, as long as it is a
  rearrangement of the bucket, \<open>getSample\<close> returns exactly \<open>min 25 (length results)\<close>
  records, each of them an element of the bucket: the sample is a prefix of a
  rearrangement of the bucket.
\<close>

theorem getSample_size:
  assumes "mset (arraySort results) = mset results"
  shows "length (getSample arraySort results) = min 25 (length results) \<and>
         set (getSample arraySort results) \<subseteq> set results \<and>
         (\<exists>shuffled. mset shuffled = mset results \<and> prefix (getSample arraySort results) shuffled)"
proof -
  from assms have "length (arraySort results) = length results"
    by (metis size_mset)
  then have "length (getSample arraySort results) = min 25 (length results)"
    by (simp add: getSample_def sampleSize_def)
  moreover from assms have "set (arraySort results) = set results"
    by (metis set_mset_mset)
  then have "set (getSample arraySort results) \<subseteq> set results"
    using set_take_subset [of sampleSize "arraySort results"] by (simp add: getSample_def)
  moreover have "prefix (getSample arraySort results) (arraySort results)"
    by (simp add: getSample_def take_is_prefix)
  ultimately show ?thesis
    using assms by blast
qed

theorem getSample_size_witness:
  "mset (rev [1 ..< 31 :: nat]) = mset [1 ..< 31] \<and>
   length (getSample rev [1 ..< 31 :: nat]) = 25 \<and>
   getSample rev [1 ..< 31 :: nat] = rev [6 ..< 31]"
proof -
  have h: "mset (rev [1 ..< 31 :: nat]) = mset [1 ..< 31]"
    by simp
  have "take 25 (rev [1 ..< 31 :: nat]) = rev [6 ..< 31]"
    by (simp add: upt_rec)
  with getSample_size [of rev "[1 ..< 31 :: nat]"] h show ?thesis
    by (simp add: getSample_def sampleSize_def)
qed

section \<open>countManualAnalysisResults\<close>

text \<open>
  The counters are created under \<open>newMethod\<close> and \<open>oldMethod\<close> and incremented under
  \<open>new\<close> and \<open>old\<close>, so the first record of the tally throws.
\<close>

lemma increment_new: "increment ''new'' f initialResult = Inl TypeError"
  by (simp add: increment_def initialResult_def)

lemma countItem_initial: "countItem initialResult item = Inl TypeError"
  by (simp add: countItem_def increment_new)

text \<open>
  Claim C9 says that the tally completes on every collection of annotated samples with the
  two counter pairs. On the collection with one annotated record it throws a
  \<open>TypeError\<close> instead.
\<close>

theorem countManualAnalysisResults_throws:
  "countManualAnalysisResults oneAnnotated = Inl TypeError"
  by (simp add: countManualAnalysisResults_def folders_def countFolder_def oneAnnotated_def
      countItem_initial)

section \<open>The two jobs of the program\<close>

lemma fileData_pt: "fileData ''pt'' = Some jobPt"
  by (simp add: fileData_def jobPt_def)

lemma runJob_first:
  assumes "fileData key = Some d"
  shows "\<exists>rest. fst (runJob e key) = readingStretch d # rest"
  using assms by (simp add: runJob_def split: sum.splits option.splits)

lemma stretches_first:
  assumes "fileData key = Some d"
  shows "take 1 (stretches e key) = [map (Pair key) (readingStretch d)]"
  using runJob_first [OF assms, of e] by (auto simp: stretches_def)

lemma tagged_simps:
  "tagged key []"
  "tagged key (s # segs) \<longleftrightarrow> list_all (\<lambda>ev. fst ev = key) s \<and> tagged key segs"
  by (simp_all add: tagged_def)

lemma tagged_take: "tagged key segs \<Longrightarrow> tagged key (take n segs)"
  by (auto simp: tagged_def list_all_iff dest: in_set_takeD)

lemma tagged_drop: "tagged key segs \<Longrightarrow> tagged key (drop n segs)"
  by (auto simp: tagged_def list_all_iff dest: in_set_dropD)

lemma stretches_tagged: "tagged key (stretches e key)"
  by (simp add: tagged_def stretches_def list_all_iff)

lemma ofJob_same: "list_all (\<lambda>ev. fst ev = key) s \<Longrightarrow> ofJob key s = s"
  by (simp add: ofJob_def list_all_iff)

lemma ofJob_other: "list_all (\<lambda>ev. fst ev = other) s \<Longrightarrow> other \<noteq> key \<Longrightarrow> ofJob key s = []"
  by (auto simp: ofJob_def list_all_iff filter_empty_conv)

lemma ofJob_append: "ofJob key (s @ t) = ofJob key s @ ofJob key t"
  by (simp add: ofJob_def)

lemma ofJob_nil: "ofJob key [] = []"
  by (simp add: ofJob_def)

lemma ofJob_concat_same: "tagged key segs \<Longrightarrow> ofJob key (concat segs) = concat segs"
  by (induction segs) (simp_all add: tagged_simps ofJob_append ofJob_same ofJob_nil)

lemma ofJob_concat_other: "tagged other segs \<Longrightarrow> other \<noteq> key \<Longrightarrow> ofJob key (concat segs) = []"
  by (induction segs) (auto simp: tagged_simps ofJob_append ofJob_nil intro: ofJob_other)

lemma prefix_concat_take: "prefix (concat (take n segs)) (concat segs)"
proof -
  have "concat segs = concat (take n segs) @ concat (drop n segs)"
    by (metis append_take_drop_id concat_append)
  then show ?thesis
    by (metis prefixI)
qed

lemma interleave_left:
  assumes "later \<in> set (interleave xs ys)" "tagged a xs" "tagged b ys" "a \<noteq> b"
  shows "prefix (ofJob a (concat (take n later))) (concat xs)"
  using assms
proof (induction xs ys arbitrary: later n rule: interleave.induct)
  case (1 ys)
  then have "later = ys" by simp
  moreover have "ofJob a (concat (take n ys)) = []"
    using 1(3,4) by (intro ofJob_concat_other [of b]) (simp_all add: tagged_take)
  ultimately show ?case by simp
next
  case (2 x xs)
  then have "later = x # xs" by simp
  moreover have "ofJob a (concat (take n (x # xs))) = concat (take n (x # xs))"
    using 2(2) by (intro ofJob_concat_same) (simp add: tagged_take)
  ultimately show ?case using prefix_concat_take [of n "x # xs"] by simp
next
  case (3 x xs y ys)
  show ?case
  proof (cases n)
    case 0
    then show ?thesis by (simp add: ofJob_def)
  next
    case (Suc m)
    from 3(3) consider l where "later = x # l" "l \<in> set (interleave xs (y # ys))"
      | l where "later = y # l" "l \<in> set (interleave (x # xs) ys)"
      by auto
    then show ?thesis
    proof cases
      case 1
      have "prefix (ofJob a (concat (take m l))) (concat xs)"
        using 1(2) 3(4,5,6) by (intro 3(1)) (simp_all add: tagged_simps)
      moreover have "ofJob a x = x"
        using 3(4) by (intro ofJob_same) (simp add: tagged_simps)
      ultimately show ?thesis
        using 1(1) Suc by (simp add: ofJob_append)
    next
      case 2
      have "prefix (ofJob a (concat (take m l))) (concat (x # xs))"
        using 2(2) 3(4,5,6) by (intro 3(2)) (simp_all add: tagged_simps)
      moreover have "ofJob a y = []"
        using 3(5,6) by (intro ofJob_other [of b]) (simp_all add: tagged_simps)
      ultimately show ?thesis
        using 2(1) Suc by (simp add: ofJob_append)
    qed
  qed
qed

lemma interleave_right:
  assumes "later \<in> set (interleave xs ys)" "tagged a xs" "tagged b ys" "a \<noteq> b"
  shows "prefix (ofJob b (concat (take n later))) (concat ys)"
  using assms
proof (induction xs ys arbitrary: later n rule: interleave.induct)
  case (1 ys)
  then have "later = ys" by simp
  moreover have "ofJob b (concat (take n ys)) = concat (take n ys)"
    using 1(3) by (intro ofJob_concat_same) (simp add: tagged_take)
  ultimately show ?case by (simp add: prefix_concat_take)
next
  case (2 x xs)
  then have "later = x # xs" by simp
  moreover have "ofJob b (concat (take n (x # xs))) = []"
    using 2(2,4) by (intro ofJob_concat_other [of a]) (simp_all add: tagged_take)
  ultimately show ?case by simp
next
  case (3 x xs y ys)
  show ?case
  proof (cases n)
    case 0
    then show ?thesis by (simp add: ofJob_def)
  next
    case (Suc m)
    from 3(3) consider l where "later = x # l" "l \<in> set (interleave xs (y # ys))"
      | l where "later = y # l" "l \<in> set (interleave (x # xs) ys)"
      by auto
    then show ?thesis
    proof cases
      case 1
      have "prefix (ofJob b (concat (take m l))) (concat (y # ys))"
        using 1(2) 3(4,5,6) by (intro 3(1)) (simp_all add: tagged_simps)
      moreover have "ofJob b x = []"
        using 3(4,6) by (intro ofJob_other [of a]) (simp_all add: tagged_simps)
      ultimately show ?thesis
        using 1(1) Suc by (simp add: ofJob_append)
    next
      case 2
      have "prefix (ofJob b (concat (take m l))) (concat ys)"
        using 2(2) 3(4,5,6) by (intro 3(2)) (simp_all add: tagged_simps)
      moreover have "ofJob b y = y"
        using 3(5) by (intro ofJob_same) (simp add: tagged_simps)
      ultimately show ?thesis
        using 2(1) Suc by (simp add: ofJob_append)
    qed
  qed
qed

lemma in_schedule:
  "t \<in> set (map (\<lambda>n. f n l) [0..<Suc (length l)]) \<longleftrightarrow> (\<exists>n. n \<le> length l \<and> t = f n l)"
  by (auto simp del: upt_Suc simp: less_Suc_eq_le)

lemma in_concat_map: "t \<in> set (concat (map g ls)) \<longleftrightarrow> (\<exists>l\<in>set ls. t \<in> set (g l))"
  by auto

lemma in_schedules:
  "t \<in> set (concat (map (\<lambda>l. map (\<lambda>n. f n l) [0..<Suc (length l)]) ls)) \<longleftrightarrow>
     (\<exists>l n. l \<in> set ls \<and> n \<le> length l \<and> t = f n l)"
  unfolding in_concat_map in_schedule by blast

lemma executions_iff:
  "t \<in> set (executions e) \<longleftrightarrow>
     (\<exists>later n. later \<in> set (interleave (drop 1 (stretches e ''pt'')) (drop 1 (stretches e ''es''))) \<and>
        n \<le> length later \<and>
        t = concat (take 1 (stretches e ''pt'')) @ concat (take 1 (stretches e ''es'')) @
            concat (take n later))"
  unfolding executions_def Let_def in_schedules concat_append ..

lemma stretchesA:
  "stretches scenarioA ''pt'' =
     [map (Pair ''pt'') (readingStretch jobPt), map (Pair ''pt'') fetchingStretch,
      map (Pair ''pt'') (writingStretch scenarioA ''pt'' jobPt [])]"
  "stretches scenarioA ''es'' =
     [map (Pair ''es'') (readingStretch jobEs), map (Pair ''es'') fetchingStretch,
      map (Pair ''es'') (writingStretch scenarioA ''es'' jobEs [recordA])]"
proof -
  have "envCsv scenarioA (materials jobPt) = Inr []"
    by (simp add: scenarioA_def jobPt_def)
  then show "stretches scenarioA ''pt'' =
     [map (Pair ''pt'') (readingStretch jobPt), map (Pair ''pt'') fetchingStretch,
      map (Pair ''pt'') (writingStretch scenarioA ''pt'' jobPt [])]"
    by (simp add: stretches_def runJob_def fileData_pt jobResults_def promiseAll_def)
  have "envCsv scenarioA (materials jobEs) = Inr [rowA]"
    by (simp add: scenarioA_def jobEs_def)
  then show "stretches scenarioA ''es'' =
     [map (Pair ''es'') (readingStretch jobEs), map (Pair ''es'') fetchingStretch,
      map (Pair ''es'') (writingStretch scenarioA ''es'' jobEs [recordA])]"
    by (simp add: stretches_def runJob_def fileData_es resultsA)
qed

lemma runA_execution: "runA \<in> set (executions scenarioA)"
proof -
  let ?later = "[map (Pair ''pt'') fetchingStretch,
      map (Pair ''pt'') (writingStretch scenarioA ''pt'' jobPt []),
      map (Pair ''es'') fetchingStretch,
      map (Pair ''es'') (writingStretch scenarioA ''es'' jobEs [recordA])]"
  have "?later \<in> set (interleave (drop 1 (stretches scenarioA ''pt''))
      (drop 1 (stretches scenarioA ''es'')))"
    by (simp add: stretchesA)
  moreover have "(4::nat) \<le> length ?later"
    by simp
  moreover have "runA = concat (take 1 (stretches scenarioA ''pt'')) @
      concat (take 1 (stretches scenarioA ''es'')) @ concat (take 4 ?later)"
    by (simp add: runA_def stretchesA)
  ultimately show ?thesis
    unfolding executions_iff by blast
qed

text \<open>
  Claim C4 says that in every execution all steps of the job \<open>pt\<close>, its file writes
  included, come before any step of the job \<open>es\<close>. In the execution \<open>runA\<close> of scenario A
  the job \<open>es\<close> logs and starts its CSV read before the job \<open>pt\<close> goes on.
\<close>

theorem program_sequential_counterexample:
  "runA \<in> set (executions scenarioA) \<and> \<not> sequentialJobs runA"
proof -
  have "\<not> sequentialJobs runA"
    by (simp add: sequentialJobs_def runA_def readingStretch_def fetchingStretch_def)
  with runA_execution show ?thesis
    by simp
qed

text \<open>
  Claim C4, amended. The two jobs are started one after the other without waiting: every
  execution begins with the log line and the CSV read of \<open>pt\<close> followed at once by the log
  line and the CSV read of \<open>es\<close>, so the job \<open>es\<close> has begun before the job \<open>pt\<close> fetches
  anything or writes any file. Within each job the effects happen in the order of
  \<open>runJob\<close>; how the later stretches of the two jobs alternate is not fixed.
\<close>

theorem program_order:
  assumes "t \<in> set (executions e)"
  shows "take 4 t =
           [(''pt'', ConsoleLog ''Reading file...'' []),
            (''pt'', ReadCsv ''materiais-pd-marcados-como-es.csv''),
            (''es'', ConsoleLog ''Reading file...'' []),
            (''es'', ReadCsv ''materiais-studenta-marcados-como-pt.csv'')] \<and>
         prefix (ofJob ''pt'' t) (concat (stretches e ''pt'')) \<and>
         prefix (ofJob ''es'' t) (concat (stretches e ''es''))"
proof -
  let ?pt = "stretches e ''pt''" and ?es = "stretches e ''es''"
  let ?p1 = "map (Pair ''pt'') (readingStretch jobPt)"
  let ?e1 = "map (Pair ''es'') (readingStretch jobEs)"
  from assms obtain later n where later: "later \<in> set (interleave (drop 1 ?pt) (drop 1 ?es))"
    and t: "t = concat (take 1 ?pt) @ concat (take 1 ?es) @ concat (take n later)"
    unfolding executions_iff by blast
  have first: "concat (take 1 ?pt) = ?p1" "concat (take 1 ?es) = ?e1"
    unfolding stretches_first [OF fileData_pt] stretches_first [OF fileData_es] by simp_all
  have t': "t = ?p1 @ ?e1 @ concat (take n later)"
    unfolding t first ..
  have tg: "tagged ''pt'' (drop 1 ?pt)" "tagged ''es'' (drop 1 ?es)"
    by (rule tagged_drop, rule stretches_tagged)+
  have ne: "''pt'' \<noteq> ''es''"
    by simp
  have own: "list_all (\<lambda>ev. fst ev = ''pt'') ?p1" "list_all (\<lambda>ev. fst ev = ''es'') ?e1"
    by (simp_all add: list_all_iff)
  have start: "take 4 t =
           [(''pt'', ConsoleLog ''Reading file...'' []),
            (''pt'', ReadCsv ''materiais-pd-marcados-como-es.csv''),
            (''es'', ConsoleLog ''Reading file...'' []),
            (''es'', ReadCsv ''materiais-studenta-marcados-como-pt.csv'')]"
    unfolding t' by (simp add: readingStretch_def jobPt_def jobEs_def)
  have pt: "concat ?pt = ?p1 @ concat (drop 1 ?pt)"
    unfolding first(1) [symmetric] by (metis append_take_drop_id concat_append)
  have es: "concat ?es = ?e1 @ concat (drop 1 ?es)"
    unfolding first(2) [symmetric] by (metis append_take_drop_id concat_append)
  have "ofJob ''pt'' t = ?p1 @ ofJob ''pt'' (concat (take n later))"
    unfolding t' ofJob_append ofJob_same [OF own(1)] ofJob_other [OF own(2) ne [symmetric]]
    by simp
  then have p: "prefix (ofJob ''pt'' t) (concat ?pt)"
    unfolding pt using interleave_left [OF later tg ne, of n] by simp
  have "ofJob ''es'' t = ?e1 @ ofJob ''es'' (concat (take n later))"
    unfolding t' ofJob_append ofJob_same [OF own(2)] ofJob_other [OF own(1) ne]
    by simp
  then have "prefix (ofJob ''es'' t) (concat ?es)"
    unfolding es using interleave_right [OF later tg ne, of n] by simp
  with start p show ?thesis
    by simp
qed

theorem program_order_witness:
  "runA \<in> set (executions scenarioA) \<and>
   take 4 runA =
     [(''pt'', ConsoleLog ''Reading file...'' []),
      (''pt'', ReadCsv ''materiais-pd-marcados-como-es.csv''),
      (''es'', ConsoleLog ''Reading file...'' []),
      (''es'', ReadCsv ''materiais-studenta-marcados-como-pt.csv'')] \<and>
   prefix (ofJob ''pt'' runA) (concat (stretches scenarioA ''pt'')) \<and>
   prefix (ofJob ''es'' runA) (concat (stretches scenarioA ''es''))"
  using program_order [OF runA_execution] runA_execution by simp

end
